theory Spec2Isabelle
  imports Complex_Main "HOL-Library.FSet"
begin

section \<open>Characters, strings and errors\<close>

text \<open>
  A Python \<open>str\<close> is modelled as a HOL \<open>string\<close>; one \<open>char\<close> stands for one Python
  character, read as a code point in the range U+0000 .. U+00FF. A raised exception is
  the \<open>Inl\<close> branch of a sum type.
\<close>

datatype error = ValueError string | IndexError | FileNotFoundError

text \<open>
  \<open>str.isdigit\<close> on one character. Besides the ASCII digits, the superscript digits
  U+00B2, U+00B3 and U+00B9 are digits for Python, and \<open>int\<close> rejects them.
\<close>

definition isdigit :: "char \<Rightarrow> bool" where
  "isdigit c \<longleftrightarrow>
     (48 \<le> (of_char c :: nat) \<and> (of_char c :: nat) \<le> 57)
     \<or> (of_char c :: nat) = 178 \<or> (of_char c :: nat) = 179 \<or> (of_char c :: nat) = 185"

text \<open>\<open>int(char)\<close> on one character: a ValueError unless it is an ASCII digit.\<close>

definition int_of_char :: "char \<Rightarrow> error + nat" where
  "int_of_char c =
     (if 48 \<le> (of_char c :: nat) \<and> (of_char c :: nat) \<le> 57
      then Inr ((of_char c :: nat) - 48)
      else Inl (ValueError (''invalid literal for int() with base 10: '' @ [CHR 0x27, c, CHR 0x27])))"

text \<open>\<open>str.lower\<close> on one character: A-Z and the upper-case letters of U+00C0 .. U+00DE.\<close>

definition lower :: "char \<Rightarrow> char" where
  "lower c =
     (let n = (of_char c :: nat) in
      if (65 \<le> n \<and> n \<le> 90) \<or> (192 \<le> n \<and> n \<le> 222 \<and> n \<noteq> 215)
      then char_of (n + 32) else c)"



section \<open>The CIGAR decoder of dia2a3m.py\<close>

record fold_state =
  alignment_q :: string
  alignment_s :: string
  insertions :: "string list"
  index :: nat
  s_curr :: nat
  q_curr :: nat
  col :: int

definition init_state :: fold_state where
  "init_state =
     \<lparr>alignment_q = [], alignment_s = [], insertions = [],
      index = 0, s_curr = 0, q_curr = 0, col = - 1\<rparr>"

text \<open>The body of \<open>for _ in range(index)\<close> under operator M; \<open>break\<close> returns the state.\<close>

fun run_M :: "nat \<Rightarrow> string \<Rightarrow> string \<Rightarrow> fold_state \<Rightarrow> fold_state" where
  "run_M 0 sequence query st = st"
| "run_M (Suc n) sequence query st =
     (if q_curr st \<ge> length query \<or> s_curr st \<ge> length sequence then st
      else run_M n sequence query
             (st\<lparr>alignment_q := alignment_q st @ [query ! q_curr st],
                 alignment_s := alignment_s st @ [sequence ! s_curr st],
                 insertions := insertions st @ [[]],
                 q_curr := q_curr st + 1,
                 s_curr := s_curr st + 1,
                 col := col st + 1\<rparr>))"

text \<open>The same loop under operator I.\<close>

fun run_I :: "nat \<Rightarrow> string \<Rightarrow> fold_state \<Rightarrow> fold_state" where
  "run_I 0 query st = st"
| "run_I (Suc n) query st =
     (if q_curr st \<ge> length query then st
      else run_I n query
             (st\<lparr>alignment_q := alignment_q st @ [query ! q_curr st],
                 alignment_s := alignment_s st @ [CHR ''-''],
                 insertions := insertions st @ [[]],
                 q_curr := q_curr st + 1,
                 col := col st + 1\<rparr>))"

text \<open>
  The same loop under operator D. \<open>insertions[col] += ...\<close> with \<open>col \<ge> 0\<close> raises
  IndexError when \<open>col\<close> is not an index of the list.
\<close>

fun run_D :: "nat \<Rightarrow> string \<Rightarrow> fold_state \<Rightarrow> error + fold_state" where
  "run_D 0 sequence st = Inr st"
| "run_D (Suc n) sequence st =
     (if s_curr st \<ge> length sequence then Inr st
      else if col st \<ge> 0 then
        (if nat (col st) < length (insertions st)
         then run_D n sequence
                (st\<lparr>insertions := (insertions st)
                       [nat (col st) := insertions st ! nat (col st) @ [lower (sequence ! s_curr st)]],
                    s_curr := s_curr st + 1\<rparr>)
         else Inl IndexError)
      else run_D n sequence (st\<lparr>s_curr := s_curr st + 1\<rparr>))"

text \<open>\<open>for char in cigar_string\<close>.\<close>

fun cigar_loop :: "string \<Rightarrow> string \<Rightarrow> string \<Rightarrow> fold_state \<Rightarrow> error + fold_state" where
  "cigar_loop [] sequence query st = Inr st"
| "cigar_loop (c # cs) sequence query st =
     (if isdigit c then
        (case int_of_char c of
           Inl e \<Rightarrow> Inl e
         | Inr d \<Rightarrow> cigar_loop cs sequence query (st\<lparr>index := index st * 10 + d\<rparr>))
      else if c = CHR ''M'' then
        cigar_loop cs sequence query ((run_M (index st) sequence query st)\<lparr>index := 0\<rparr>)
      else if c = CHR ''I'' then
        cigar_loop cs sequence query ((run_I (index st) query st)\<lparr>index := 0\<rparr>)
      else if c = CHR ''D'' then
        (case run_D (index st) sequence st of
           Inl e \<Rightarrow> Inl e
         | Inr st' \<Rightarrow> cigar_loop cs sequence query (st'\<lparr>index := 0\<rparr>))
      else Inl (ValueError (''Invalid CIGAR character: '' @ [c])))"

text \<open>\<open>while q_curr < len(query)\<close>.\<close>

function tail_loop :: "string \<Rightarrow> fold_state \<Rightarrow> fold_state" where
  "tail_loop query st =
     (if q_curr st < length query
      then tail_loop query
             (st\<lparr>alignment_q := alignment_q st @ [query ! q_curr st],
                 alignment_s := alignment_s st @ [CHR ''-''],
                 insertions := insertions st @ [[]],
                 q_curr := q_curr st + 1,
                 col := col st + 1\<rparr>)
      else st)"
  by pat_completeness auto
termination
  by (relation "measure (\<lambda>(query, st). length query - q_curr st)") auto

declare tail_loop.simps [simp del]

definition cigar_to_alignment_fold ::
  "string \<Rightarrow> string \<Rightarrow> string \<Rightarrow> error + (string \<times> string \<times> string list)" where
  "cigar_to_alignment_fold cigar_string sequence query =
     (case cigar_loop cigar_string sequence query init_state of
        Inl e \<Rightarrow> Inl e
      | Inr st \<Rightarrow>
          (let st' = tail_loop query st
           in Inr (alignment_q st', alignment_s st', insertions st')))"


text \<open>
  The hypothesis of the decoder's guarantees: every character of the CIGAR string is an
  ASCII decimal digit or one of the operators M, I, D.
\<close>

definition valid_op_char :: "char \<Rightarrow> bool" where
  "valid_op_char c \<longleftrightarrow>
     (48 \<le> (of_char c :: nat) \<and> (of_char c :: nat) \<le> 57)
     \<or> c = CHR ''M'' \<or> c = CHR ''I'' \<or> c = CHR ''D''"

definition valid_cigar :: "string \<Rightarrow> bool" where
  "valid_cigar cs = list_all valid_op_char cs"

text \<open>
  Where the characters of the decoder's output come from: a column holds a subject
  character or the gap character, an insertion string holds lower-cased subject
  characters.
\<close>

definition fold_content :: "string \<Rightarrow> fold_state \<Rightarrow> bool" where
  "fold_content sequence st \<longleftrightarrow>
     set (alignment_s st) \<subseteq> insert CHR ''-'' (set sequence) \<and>
     (\<forall>x\<in>set (insertions st). set x \<subseteq> lower ` set sequence)"

text \<open>The relation between the decoder's variables that every iteration keeps.\<close>

definition fold_inv :: "string \<Rightarrow> string \<Rightarrow> fold_state \<Rightarrow> bool" where
  "fold_inv sequence query st \<longleftrightarrow>
     col st = int (length (insertions st)) - 1 \<and>
     length (alignment_s st) = q_curr st \<and>
     length (insertions st) = q_curr st \<and>
     q_curr st \<le> length query \<and>
     s_curr st \<le> length sequence \<and>
     alignment_q st = take (q_curr st) query"

section \<open>The CIGAR decoder of star\_alighnment\_DIAMOND.py\<close>

record star_state =
  alignment_s_star :: string
  alignment_q_star :: string
  index_star :: nat
  s_curr_star :: nat
  q_curr_star :: nat

definition init_star :: star_state where
  "init_star =
     \<lparr>alignment_s_star = [], alignment_q_star = [],
      index_star = 0, s_curr_star = 0, q_curr_star = 0\<rparr>"

text \<open>
  \<open>for char in cigar_string\<close>; the slice \<open>xs[a:a+n]\<close> with \<open>0 \<le> a\<close> is
  \<open>take n (drop a xs)\<close>.
\<close>

fun star_loop :: "string \<Rightarrow> string \<Rightarrow> string \<Rightarrow> star_state \<Rightarrow> error + star_state" where
  "star_loop [] sequence query st = Inr st"
| "star_loop (c # cs) sequence query st =
     (if isdigit c then
        (case int_of_char c of
           Inl e \<Rightarrow> Inl e
         | Inr d \<Rightarrow> star_loop cs sequence query (st\<lparr>index_star := index_star st * 10 + d\<rparr>))
      else if c = CHR ''M'' then
        star_loop cs sequence query
          (st\<lparr>alignment_s_star :=
                 alignment_s_star st @ take (index_star st) (drop (s_curr_star st) sequence),
              alignment_q_star :=
                 alignment_q_star st @ take (index_star st) (drop (q_curr_star st) query),
              s_curr_star := s_curr_star st + index_star st,
              q_curr_star := q_curr_star st + index_star st,
              index_star := 0\<rparr>)
      else if c = CHR ''D'' then
        star_loop cs sequence query
          (st\<lparr>s_curr_star := s_curr_star st + index_star st, index_star := 0\<rparr>)
      else if c = CHR ''I'' then
        star_loop cs sequence query
          (st\<lparr>alignment_q_star :=
                 alignment_q_star st @ take (index_star st) (drop (q_curr_star st) query),
              alignment_s_star := alignment_s_star st @ replicate (index_star st) CHR ''-'',
              q_curr_star := q_curr_star st + index_star st,
              index_star := 0\<rparr>)
      else Inl (ValueError (''Invalid character in CIGAR string: '' @ [c])))"

definition cigar_to_alignment_fold_star ::
  "string \<Rightarrow> string \<Rightarrow> string \<Rightarrow> error + (string \<times> string)" where
  "cigar_to_alignment_fold_star cigar_string sequence query =
     (case star_loop cigar_string sequence query init_star of
        Inl e \<Rightarrow> Inl e
      | Inr st \<Rightarrow>
          (let aq = (if q_curr_star st < length query
                     then alignment_q_star st @ drop (q_curr_star st) query
                     else alignment_q_star st);
               as = (if length (alignment_s_star st) < length aq
                     then alignment_s_star st
                            @ replicate (length aq - length (alignment_s_star st)) CHR ''-''
                     else alignment_s_star st)
           in Inr (aq, as)))"

text \<open>
  What a CIGAR string asks for: the number of query characters (M and I runs) and of
  subject characters (M and D runs) that its runs consume, with the run length
  accumulated from the digits as both decoders do. The slices are long enough when they
  have at least that many characters.
\<close>

fun cigar_needs :: "string \<Rightarrow> nat \<Rightarrow> nat \<times> nat" where
  "cigar_needs [] idx = (0, 0)"
| "cigar_needs (c # cs) idx =
     (if 48 \<le> (of_char c :: nat) \<and> (of_char c :: nat) \<le> 57
      then cigar_needs cs (idx * 10 + ((of_char c :: nat) - 48))
      else if c = CHR ''M'' then (idx + fst (cigar_needs cs 0), idx + snd (cigar_needs cs 0))
      else if c = CHR ''I'' then (idx + fst (cigar_needs cs 0), snd (cigar_needs cs 0))
      else if c = CHR ''D'' then (fst (cigar_needs cs 0), idx + snd (cigar_needs cs 0))
      else cigar_needs cs 0)"

definition no_overrun :: "string \<Rightarrow> string \<Rightarrow> string \<Rightarrow> bool" where
  "no_overrun cigar_string sequence query \<longleftrightarrow>
     fst (cigar_needs cigar_string 0) \<le> length query \<and>
     snd (cigar_needs cigar_string 0) \<le> length sequence"

section \<open>The A3M writer of dia2a3m.py\<close>

text \<open>\<open>str.isspace\<close> on one character, and \<open>str.strip()\<close>.\<close>

definition isspace :: "char \<Rightarrow> bool" where
  "isspace c \<longleftrightarrow>
     (9 \<le> (of_char c :: nat) \<and> (of_char c :: nat) \<le> 13)
     \<or> (28 \<le> (of_char c :: nat) \<and> (of_char c :: nat) \<le> 32)
     \<or> (of_char c :: nat) = 133 \<or> (of_char c :: nat) = 160"

definition strip :: "string \<Rightarrow> string" where
  "strip s = rev (dropWhile isspace (rev (dropWhile isspace s)))"

text \<open>
  The slices \<open>xs[:k]\<close> and \<open>xs[k:]\<close> for any integer \<open>k\<close>: a negative \<open>k\<close> counts
  from the end and is clamped at the start of the list.
\<close>

definition slice_to :: "int \<Rightarrow> 'a list \<Rightarrow> 'a list" where
  "slice_to k xs = (if 0 \<le> k then take (nat k) xs else take (length xs - nat (- k)) xs)"

definition slice_from :: "int \<Rightarrow> 'a list \<Rightarrow> 'a list" where
  "slice_from k xs = (if 0 \<le> k then drop (nat k) xs else drop (length xs - nat (- k)) xs)"

text \<open>\<open>l[i]\<close> on a list with \<open>0 \<le> i\<close>.\<close>

definition item :: "'a list \<Rightarrow> nat \<Rightarrow> error + 'a" where
  "item l i = (if i < length l then Inr (l ! i) else Inl IndexError)"

text \<open>
  The builtin \<open>int\<close> on a string is not code of this repository: the functions that call
  it take it as the parameter \<open>py_int\<close>, whose \<open>Inl\<close> result is the ValueError.
  \<open>dec_int\<close> is the instance used in the examples: it reads an optional minus sign
  followed by ASCII decimal digits, as \<open>int\<close> does on such strings.
\<close>

fun dec_value :: "string \<Rightarrow> nat \<Rightarrow> nat" where
  "dec_value [] acc = acc"
| "dec_value (c # cs) acc = dec_value cs (acc * 10 + ((of_char c :: nat) - 48))"

definition ascii_digits :: "string \<Rightarrow> bool" where
  "ascii_digits s \<longleftrightarrow>
     s \<noteq> [] \<and> list_all (\<lambda>c. 48 \<le> (of_char c :: nat) \<and> (of_char c :: nat) \<le> 57) s"

definition dec_int :: "string \<Rightarrow> error + int" where
  "dec_int s =
     (if ascii_digits s then Inr (int (dec_value s 0))
      else if s \<noteq> [] \<and> hd s = CHR ''-'' \<and> ascii_digits (tl s)
      then Inr (- int (dec_value (tl s) 0))
      else Inl (ValueError (''invalid literal for int() with base 10: '' @ [CHR 0x27] @ s @ [CHR 0x27])))"

text \<open>
  The body of \<open>for l in all_hits\<close> in \<open>hits_to_a3m\<close>: the triple appended to
  \<open>target_alignments\<close>, or the exception that the body raises. \<open>q_seq\<close> is the
  stripped query.
\<close>

definition hit_alignment ::
  "(string \<Rightarrow> error + int) \<Rightarrow> string \<Rightarrow> string list
     \<Rightarrow> error + (string \<times> string list \<times> string)" where
  "hit_alignment py_int q_seq l =
     (case item l 0 of Inl e \<Rightarrow> Inl e | Inr hit_seq \<Rightarrow>
      case item l 1 of Inl e \<Rightarrow> Inl e | Inr cigar \<Rightarrow>
      case item l 2 of Inl e \<Rightarrow> Inl e | Inr f2 \<Rightarrow>
      case py_int f2 of Inl e \<Rightarrow> Inl e | Inr i2 \<Rightarrow>
      case item l 3 of Inl e \<Rightarrow> Inl e | Inr f3 \<Rightarrow>
      case py_int f3 of Inl e \<Rightarrow> Inl e | Inr i3 \<Rightarrow>
      case item l 4 of Inl e \<Rightarrow> Inl e | Inr header \<Rightarrow>
      (let q_start = i2 - 1;
           s_start = i3 - 1;
           q_prefix = slice_to q_start q_seq;
           q_aln = slice_from q_start q_seq;
           s_prefix = replicate (length q_prefix) CHR ''-'';
           s_sub = slice_from s_start hit_seq
       in case cigar_to_alignment_fold cigar s_sub q_aln of
            Inl e \<Rightarrow> Inl e
          | Inr (aq, s_aln, ins) \<Rightarrow>
              (let s_full = s_prefix @ s_aln;
                   ins_full = replicate (length q_prefix) [] @ ins
               in if length s_full < length q_seq then
                    Inr (s_full @ replicate (length q_seq - length s_full) CHR ''-'',
                         ins_full @ replicate (length q_seq - length ins_full) [],
                         header)
                  else if length s_full > length q_seq then
                    Inr (take (length q_seq) s_full, take (length q_seq) ins_full, header)
                  else Inr (s_full, ins_full, header))))"

text \<open>\<open>for l in all_hits\<close>: the first exception ends the loop.\<close>

fun target_alignments ::
  "(string \<Rightarrow> error + int) \<Rightarrow> string \<Rightarrow> string list list
     \<Rightarrow> error + (string \<times> string list \<times> string) list" where
  "target_alignments py_int q_seq [] = Inr []"
| "target_alignments py_int q_seq (l # ls) =
     (case hit_alignment py_int q_seq l of
        Inl e \<Rightarrow> Inl e
      | Inr t \<Rightarrow>
          (case target_alignments py_int q_seq ls of
             Inl e \<Rightarrow> Inl e
           | Inr ts \<Rightarrow> Inr (t # ts)))"

text \<open>The sequence line of one hit: each column character, then its insertion if any.\<close>

definition a3m_row :: "string \<Rightarrow> string list \<Rightarrow> string" where
  "a3m_row s_full ins_full =
     concat (map (\<lambda>(ch, ins). if ins \<noteq> [] then [ch] @ ins else [ch]) (zip s_full ins_full))"

text \<open>
  Whether \<open>out_path.open("w")\<close> succeeds depends on the file system, which is not code
  of this repository: the functions that write take it as the parameter \<open>open_w\<close>. For
  a file name relative to the output directory it gives the exception that the call
  raises, or \<open>None\<close> when the file is opened. \<open>flat_dir_open\<close> is the instance used in
  the examples, an output directory without subdirectories: a name such as
  \<open>P1/1-5.a3m\<close>, whose directory does not exist, raises FileNotFoundError, and a name
  without a slash is opened.
\<close>

definition flat_dir_open :: "string \<Rightarrow> error option" where
  "flat_dir_open name = (if CHR ''/'' \<in> set name then Some FileNotFoundError else None)"

text \<open>
  \<open>hits_to_a3m\<close> returns the lines it writes to \<open>outfname.a3m\<close> (each \<open>f.write\<close>
  is one line, without its final newline), or the exception raised: by the loop over the
  hits, which runs first, or by the opening of the file. The output directory exists
  when the function is called (the script creates it before the loop), so that
  \<open>out_dir.mkdir\<close> does nothing; the printed messages are left out.
\<close>

definition hits_to_a3m ::
  "(string \<Rightarrow> error + int) \<Rightarrow> (string \<Rightarrow> error option) \<Rightarrow> string \<Rightarrow> string list list
     \<Rightarrow> string \<Rightarrow> error + string list" where
  "hits_to_a3m py_int open_w q_seq all_hits outfname =
     (case target_alignments py_int (strip q_seq) all_hits of
        Inl e \<Rightarrow> Inl e
      | Inr ts \<Rightarrow>
          (case open_w (outfname @ ''.a3m'') of
             Some e \<Rightarrow> Inl e
           | None \<Rightarrow>
               Inr ([[CHR ''>''] @ outfname, strip q_seq]
                    @ concat (map (\<lambda>(s_full, ins_full, header).
                                     [[CHR ''>''] @ header, a3m_row s_full ins_full]) ts))))"

text \<open>
  The conversion loop of the script, \<open>for query, all_hits in dict_hits_per_query.items()\<close>.
  The dictionary of hits is the list of its items in insertion order; the output
  directory is a map from a file name to the lines of the file. The loop has no
  exception handler: an exception of \<open>hits_to_a3m\<close> ends it, with the files written so
  far left in place.
\<close>

fun conversion_loop ::
  "(string \<Rightarrow> error + int) \<Rightarrow> (string \<Rightarrow> error option) \<Rightarrow> (string \<rightharpoonup> string)
     \<Rightarrow> (string \<times> string list list) list
     \<Rightarrow> (string \<rightharpoonup> string list) \<Rightarrow> (string \<rightharpoonup> string list) \<times> error option" where
  "conversion_loop py_int open_w queries_seq [] files = (files, None)"
| "conversion_loop py_int open_w queries_seq ((query, all_hits) # rest) files =
     (case queries_seq query of
        None \<Rightarrow> conversion_loop py_int open_w queries_seq rest files
      | Some q_seq \<Rightarrow>
          (case hits_to_a3m py_int open_w q_seq all_hits query of
             Inl e \<Rightarrow> (files, Some e)
           | Inr lines \<Rightarrow>
               conversion_loop py_int open_w queries_seq rest
                 (files(query @ ''.a3m'' \<mapsto> lines))))"

text \<open>A hit record whose fields the loop body can read and decode.\<close>

definition wellformed_hit :: "(string \<Rightarrow> error + int) \<Rightarrow> string list \<Rightarrow> bool" where
  "wellformed_hit py_int l \<longleftrightarrow>
     5 \<le> length l \<and> valid_cigar (l ! 1) \<and>
     (\<exists>i. py_int (l ! 2) = Inr i) \<and> (\<exists>i. py_int (l ! 3) = Inr i)"

section \<open>The structure cleaner, clean.py\<close>

text \<open>
  A residue is represented by its identifier \<open>(het_flag, resseq, icode)\<close>, a chain by its
  identifier and the list of its residues, a model by the list of its chains and a
  structure by the list of its models. A Python set of integers is a finite set.
  The true division of two integers is kept as the exact quotient, a rational number:
  Python returns the float nearest to it, and the comparison of that float with the
  float 0.8 has the outcome of the comparison of the quotient with 8/10 as long as the
  divisor is below ten to the sixteenth.
\<close>

type_synonym residue_id = "string \<times> int \<times> string"

record pdb_chain =
  chain_id :: string
  residues :: "residue_id list"

type_synonym pdb_model = "pdb_chain list"

type_synonym pdb_structure = "pdb_model list"

type_synonym auth_map = "(int \<times> string) \<rightharpoonup> int fset"

definition COVERAGE_CUTOFF :: rat where
  "COVERAGE_CUTOFF = 8 / 10"

definition MAX_INTERNAL_GAP :: int where
  "MAX_INTERNAL_GAP = 15"

text \<open>A value of the mmCIF dictionary: a string for a singleton, a list otherwise.\<close>

datatype cif_value = Str string | Lst "string list"

type_synonym cif_dict = "string \<rightharpoonup> cif_value"

definition to_list :: "cif_value \<Rightarrow> string list" where
  "to_list x = (case x of Lst xs \<Rightarrow> xs | Str v \<Rightarrow> [v])"

text \<open>
  The loop of \<open>get_poly_seq_scheme\<close> over the zipped rows
  \<open>(s_id, st_id, a_num, ins_code)\<close>, with the set of polymer positions and the map
  from author numbering built so far.
\<close>

fun scheme_loop ::
  "(string \<Rightarrow> error + int) \<Rightarrow> string \<Rightarrow> (string \<times> string \<times> string \<times> string) list
     \<Rightarrow> int fset \<times> auth_map \<Rightarrow> int fset \<times> auth_map" where
  "scheme_loop py_int cid [] acc = acc"
| "scheme_loop py_int cid ((s_id, st_id, a_num, ins_code) # rows) (seq_id_set, amap) =
     (if strip st_id \<noteq> cid then scheme_loop py_int cid rows (seq_id_set, amap)
      else case py_int s_id of
        Inl e \<Rightarrow> scheme_loop py_int cid rows (seq_id_set, amap)
      | Inr seq_id \<Rightarrow>
          (case py_int a_num of
             Inl e \<Rightarrow> scheme_loop py_int cid rows (finsert seq_id seq_id_set, amap)
           | Inr auth_num \<Rightarrow>
               (let icode = (if ins_code = ''.'' \<or> ins_code = ''?'' then [] else strip ins_code);
                    key = (auth_num, icode);
                    old = (case amap key of None \<Rightarrow> {||} | Some v \<Rightarrow> v)
                in scheme_loop py_int cid rows
                     (finsert seq_id seq_id_set, amap(key \<mapsto> finsert seq_id old)))))"

definition get_poly_seq_scheme ::
  "(string \<Rightarrow> error + int) \<Rightarrow> cif_dict \<Rightarrow> string \<Rightarrow> (int list \<times> auth_map) option" where
  "get_poly_seq_scheme py_int cif cid =
     (case cif ''_pdbx_poly_seq_scheme.seq_id'' of None \<Rightarrow> None | Some v1 \<Rightarrow>
      case cif ''_pdbx_poly_seq_scheme.pdb_strand_id'' of None \<Rightarrow> None | Some v2 \<Rightarrow>
      (let seq_ids_raw = to_list v1;
           strand_ids = to_list v2;
           auth_nums_raw =
             (case cif ''_pdbx_poly_seq_scheme.auth_seq_num'' of
                None \<Rightarrow> replicate (length seq_ids_raw) ''?'' | Some v \<Rightarrow> to_list v);
           ins_codes_raw =
             (case cif ''_pdbx_poly_seq_scheme.pdb_ins_code'' of
                None \<Rightarrow> replicate (length seq_ids_raw) ''?'' | Some v \<Rightarrow> to_list v);
           (seq_id_set, amap) =
             scheme_loop py_int cid
               (zip seq_ids_raw (zip strand_ids (zip auth_nums_raw ins_codes_raw)))
               ({||}, Map.empty)
       in if seq_id_set = {||} then None
          else Some (sorted_list_of_fset seq_id_set, amap)))"

text \<open>The key \<open>(resseq, icode_str)\<close> under which a residue is looked up.\<close>

definition residue_key :: "residue_id \<Rightarrow> int \<times> string" where
  "residue_key r =
     (case r of (het_flag, resseq, icode) \<Rightarrow> (resseq, if icode = '' '' then [] else icode))"

text \<open>\<open>for res in chain.get_residues()\<close> in \<open>compute_coverage_and_gap\<close>.\<close>

fun observed_seq_ids :: "residue_id list \<Rightarrow> auth_map \<Rightarrow> int fset \<Rightarrow> int fset" where
  "observed_seq_ids [] amap obs = obs"
| "observed_seq_ids (r # rs) amap obs =
     (case amap (residue_key r) of
        None \<Rightarrow> observed_seq_ids rs amap obs
      | Some v \<Rightarrow> observed_seq_ids rs amap (obs |\<union>| v))"

text \<open>\<open>for pos in obs_sorted[1:]\<close>, with \<open>max_gap\<close> and \<open>prev\<close>.\<close>

fun gap_loop :: "int \<Rightarrow> int \<Rightarrow> int list \<Rightarrow> int" where
  "gap_loop max_gap prev [] = max_gap"
| "gap_loop max_gap prev (pos # rest) =
     (let gap = pos - prev - 1
      in gap_loop (if gap > max_gap then gap else max_gap) pos rest)"

definition compute_coverage_and_gap :: "pdb_chain \<Rightarrow> int list \<Rightarrow> auth_map \<Rightarrow> rat \<times> int" where
  "compute_coverage_and_gap chain seq_ids amap =
     (if seq_ids = [] then (0, 0)
      else let observed = observed_seq_ids (residues chain) amap {||}
           in if observed = {||} then (0, 0)
              else let coverage = of_nat (fcard observed) / of_nat (length seq_ids);
                       obs_sorted = sorted_list_of_fset observed
                   in if length obs_sorted < 2 then (coverage, 0)
                      else (coverage, gap_loop 0 (hd obs_sorted) (tl obs_sorted)))"

definition fallback_coverage_gap :: "pdb_chain \<Rightarrow> rat \<times> int" where
  "fallback_coverage_gap chain =
     (let resseqs = map (\<lambda>r. fst (snd r)) (residues chain)
      in if resseqs = [] then (0, 0)
         else let resseqs_sorted = sorted_list_of_set (set resseqs);
                  min_r = hd resseqs_sorted;
                  max_r = last resseqs_sorted;
                  length_est = max_r - min_r + 1;
                  coverage = (if length_est > 0
                              then of_nat (length resseqs_sorted) / of_int length_est else 0)
              in (coverage, gap_loop 0 (hd resseqs_sorted) (tl resseqs_sorted)))"

definition clean_chain_using_polymer_mapping :: "pdb_chain \<Rightarrow> auth_map \<Rightarrow> pdb_chain" where
  "clean_chain_using_polymer_mapping chain amap =
     chain\<lparr>residues := filter (\<lambda>r. amap (residue_key r) \<noteq> None) (residues chain)\<rparr>"

text \<open>The fallback cleaning of \<open>process_cif_file\<close>: residues with a HET flag are removed.\<close>

definition remove_het_residues :: "pdb_chain \<Rightarrow> pdb_chain" where
  "remove_het_residues chain =
     chain\<lparr>residues := filter (\<lambda>r. strip (fst r) = []) (residues chain)\<rparr>"

datatype scoring = Method_main | Method_fallback

datatype reject_reason =
    parse_error string
  | no_model_0
  | no_chains_found
  | low_coverage rat scoring
  | big_internal_gap int scoring

text \<open>
  A line of the log: the file name is left out, and the coverage is the value itself
  rather than its three-digit rendering.
\<close>

datatype log_line = REJECT reject_reason | ACCEPT string rat int scoring

record outcome =
  logged :: log_line
  saved :: "pdb_structure option"

text \<open>
  The coverage, the gap and the scoring path that \<open>process_cif_file\<close> computes for the chosen
  chain, with the map from author numbering when the main path is used.
\<close>

definition coverage_and_gap ::
  "(string \<Rightarrow> error + int) \<Rightarrow> cif_dict option \<Rightarrow> pdb_chain
     \<Rightarrow> scoring \<times> auth_map option \<times> rat \<times> int" where
  "coverage_and_gap py_int dict_result chain =
     (case (case dict_result of
              None \<Rightarrow> None
            | Some cif \<Rightarrow> get_poly_seq_scheme py_int cif (chain_id chain)) of
        None \<Rightarrow> (Method_fallback, None, fallback_coverage_gap chain)
      | Some (seq_ids, amap) \<Rightarrow>
          (Method_main, Some amap, compute_coverage_and_gap chain seq_ids amap))"

text \<open>The cleaning step: the other chains are detached and the chosen chain is stripped.\<close>

definition clean_model :: "pdb_model \<Rightarrow> pdb_chain \<Rightarrow> auth_map option \<Rightarrow> pdb_model" where
  "clean_model model chain amap_opt =
     (case amap_opt of
        Some amap \<Rightarrow> clean_chain_using_polymer_mapping chain amap
      | None \<Rightarrow> remove_het_residues chain)
     # filter (\<lambda>c. chain_id c = chain_id chain) (tl model)"

text \<open>
  \<open>process_cif_file\<close>: \<open>parse_result\<close> is what \<open>parser.get_structure\<close> gives (the
  structure, or the text of its exception), \<open>dict_result\<close> what \<open>MMCIF2Dict\<close> gives
  (\<open>None\<close> when it raises). The result is the log line and the structure saved, if any.
\<close>

definition process_cif_file ::
  "(string \<Rightarrow> error + int) \<Rightarrow> string + pdb_structure \<Rightarrow> cif_dict option \<Rightarrow> outcome" where
  "process_cif_file py_int parse_result dict_result =
     (case parse_result of
        Inl e \<Rightarrow> \<lparr>logged = REJECT (parse_error e), saved = None\<rparr>
      | Inr struct \<Rightarrow>
          (case struct of
             [] \<Rightarrow> \<lparr>logged = REJECT no_model_0, saved = None\<rparr>
           | model # others \<Rightarrow>
               (case model of
                  [] \<Rightarrow> \<lparr>logged = REJECT no_chains_found, saved = None\<rparr>
                | chain # cs \<Rightarrow>
                    (case coverage_and_gap py_int dict_result chain of
                       (meth, amap_opt, coverage, max_gap) \<Rightarrow>
                         if coverage < COVERAGE_CUTOFF
                         then \<lparr>logged = REJECT (low_coverage coverage meth), saved = None\<rparr>
                         else if max_gap > MAX_INTERNAL_GAP
                         then \<lparr>logged = REJECT (big_internal_gap max_gap meth), saved = None\<rparr>
                         else \<lparr>logged = ACCEPT (chain_id chain) coverage max_gap meth,
                               saved = Some (clean_model model chain amap_opt # others)\<rparr>))))"

text \<open>
  The specification's maximum internal gap of a set of observed positions: the largest
  length of a run of consecutive integers that are all missing from the set and lie
  strictly between its minimum and its maximum.
\<close>

definition missing_run :: "int set \<Rightarrow> int \<Rightarrow> int \<Rightarrow> bool" where
  "missing_run obs a n \<longleftrightarrow>
     0 \<le> n \<and> (\<forall>i. a \<le> i \<and> i < a + n \<longrightarrow> i \<notin> obs \<and> Min obs < i \<and> i < Max obs)"

definition spec_max_internal_gap :: "int set \<Rightarrow> int" where
  "spec_max_internal_gap obs = Max {n. \<exists>a. missing_run obs a n}"

section \<open>The alignment metrics, a3m\_quality.py\<close>

text \<open>
  Floats are idealised: an entropy is a real number and the value NaN is \<open>None\<close>; an
  identity, the quotient of two counts, is a rational number.
\<close>


definition GAP_CHARS :: "char set" where
  "GAP_CHARS = {CHR ''-'', CHR ''.''}"

text \<open>\<open>Counter(residues)\<close>: the counts, in the order of first occurrence.\<close>

fun counter_add :: "'a \<Rightarrow> ('a \<times> nat) list \<Rightarrow> ('a \<times> nat) list" where
  "counter_add x [] = [(x, 1)]"
| "counter_add x ((y, n) # r) = (if x = y then (y, n + 1) # r else (y, n) # counter_add x r)"

definition Counter :: "'a list \<Rightarrow> ('a \<times> nat) list" where
  "Counter xs = foldl (\<lambda>acc x. counter_add x acc) [] xs"

definition col_entropy :: "string \<Rightarrow> real option" where
  "col_entropy column =
     (let residues = filter (\<lambda>c. c \<notin> GAP_CHARS) column
      in if residues = [] then None
         else let counts = Counter residues;
                  n = sum_list (map snd counts)
              in Some (foldl (\<lambda>ent v. ent - (real v / real n) * log 2 (real v / real n))
                         0 (map snd counts)))"

text \<open>\<open>[msa[r][i] for r in range(N)]\<close>: an IndexError at the first row that is too short.\<close>

fun msa_column :: "string list \<Rightarrow> nat \<Rightarrow> error + string" where
  "msa_column [] i = Inr []"
| "msa_column (row # rows) i =
     (if i < length row
      then (case msa_column rows i of Inl e \<Rightarrow> Inl e | Inr column \<Rightarrow> Inr (row ! i # column))
      else Inl IndexError)"

text \<open>\<open>for i in range(L)\<close> in \<open>mean_entropy\<close>, with the list \<open>ents\<close>.\<close>

fun ents_loop :: "string list \<Rightarrow> nat list \<Rightarrow> real list \<Rightarrow> error + real list" where
  "ents_loop msa [] ents = Inr ents"
| "ents_loop msa (i # is) ents =
     (case msa_column msa i of
        Inl e \<Rightarrow> Inl e
      | Inr column \<Rightarrow>
          (case col_entropy column of
             None \<Rightarrow> ents_loop msa is ents
           | Some e \<Rightarrow> ents_loop msa is (ents @ [e])))"

definition mean_entropy :: "string list \<Rightarrow> error + real option" where
  "mean_entropy msa =
     (if msa = [] then Inr None
      else case ents_loop msa [0 ..< length (hd msa)] [] of
             Inl e \<Rightarrow> Inl e
           | Inr ents \<Rightarrow>
               Inr (if ents \<noteq> [] then Some (sum_list ents / real (length ents)) else None))"

text \<open>\<open>for x, y in zip(a, b)\<close> in \<open>pairwise_identity_gapmasked\<close>, with the two counters.\<close>

fun identity_loop :: "(char \<times> char) list \<Rightarrow> nat \<times> nat \<Rightarrow> nat \<times> nat" where
  "identity_loop [] (matches, comps) = (matches, comps)"
| "identity_loop ((x, y) # r) (matches, comps) =
     (if x \<in> GAP_CHARS \<or> y \<in> GAP_CHARS then identity_loop r (matches, comps)
      else identity_loop r (if x = y then matches + 1 else matches, comps + 1))"

definition pairwise_identity_gapmasked :: "string \<Rightarrow> string \<Rightarrow> rat" where
  "pairwise_identity_gapmasked a b =
     (case identity_loop (zip a b) (0, 0) of
        (matches, comps) \<Rightarrow> if comps \<noteq> 0 then of_nat matches / of_nat comps else 0)"

text \<open>\<open>for k in kept\<close> with its \<open>break\<close>: the value of \<open>redundant\<close> after the loop.\<close>

fun redundant :: "string \<Rightarrow> string list \<Rightarrow> rat \<Rightarrow> bool" where
  "redundant s [] thresh = False"
| "redundant s (k # ks) thresh =
     (if pairwise_identity_gapmasked s k \<ge> thresh then True else redundant s ks thresh)"

fun greedy_loop :: "string list \<Rightarrow> string list \<Rightarrow> rat \<Rightarrow> string list" where
  "greedy_loop [] kept thresh = kept"
| "greedy_loop (s # rest) kept thresh =
     (if \<not> redundant s kept thresh then greedy_loop rest (kept @ [s]) thresh
      else greedy_loop rest kept thresh)"

definition greedy_nr_count :: "string list \<Rightarrow> rat \<Rightarrow> nat" where
  "greedy_nr_count msa thresh = length (greedy_loop msa [] thresh)"

text \<open>A column without a residue, and the columns of an alignment whose rows are as long as the first.\<close>

definition all_gaps :: "string \<Rightarrow> bool" where
  "all_gaps column \<longleftrightarrow> list_all (\<lambda>c. c \<in> GAP_CHARS) column"

definition msa_columns :: "string list \<Rightarrow> string list" where
  "msa_columns msa = map (\<lambda>i. map (\<lambda>row. row ! i) msa) [0 ..< length (hd msa)]"

text \<open>The variables that the two decoders share, holding the same values.\<close>

definition fold_star_rel :: "fold_state \<Rightarrow> star_state \<Rightarrow> bool" where
  "fold_star_rel st ss \<longleftrightarrow>
     alignment_q_star ss = alignment_q st \<and>
     alignment_s_star ss = alignment_s st \<and>
     index_star ss = index st \<and>
     s_curr_star ss = s_curr st \<and>
     q_curr_star ss = q_curr st"

section \<open>Properties of the decoder's loops\<close>

lemma inv_init: "fold_inv sequence query init_state"
  by (simp add: fold_inv_def init_state_def)

lemma run_M_inv: "fold_inv sequence query st \<Longrightarrow> fold_inv sequence query (run_M n sequence query st)"
  by (induction n sequence query st rule: run_M.induct) (auto simp: fold_inv_def take_Suc_conv_app_nth)

lemma run_I_inv: "fold_inv sequence query st \<Longrightarrow> fold_inv sequence query (run_I n query st)"
  by (induction n query st rule: run_I.induct) (auto simp: fold_inv_def take_Suc_conv_app_nth)

lemma run_D_inv:
  "fold_inv sequence query st \<Longrightarrow> \<exists>st'. run_D n sequence st = Inr st' \<and> fold_inv sequence query st'"
  by (induction n sequence st rule: run_D.induct) (auto simp: fold_inv_def)

lemma inv_index: "fold_inv sequence query st \<Longrightarrow> fold_inv sequence query (st\<lparr>index := k\<rparr>)"
  by (simp add: fold_inv_def)

lemma cigar_loop_inv:
  "cigar_loop cs sequence query st = Inr st' \<Longrightarrow> fold_inv sequence query st \<Longrightarrow> fold_inv sequence query st'"
proof (induction cs arbitrary: st)
  case Nil
  then show ?case by simp
next
  case (Cons c cs)
  show ?case
  proof (cases "isdigit c")
    case True
    with Cons.prems obtain d where
      "cigar_loop cs sequence query (st\<lparr>index := index st * 10 + d\<rparr>) = Inr st'"
      by (auto split: sum.splits)
    then show ?thesis using Cons.IH Cons.prems(2) inv_index by blast
  next
    case False
    note nd = False
    consider (M) "c = CHR ''M''" | (I) "c = CHR ''I''" | (D) "c = CHR ''D''"
      | (other) "c \<noteq> CHR ''M''" "c \<noteq> CHR ''I''" "c \<noteq> CHR ''D''" by blast
    then show ?thesis
    proof cases
      case M
      with nd Cons.prems(1) have
        "cigar_loop cs sequence query ((run_M (index st) sequence query st)\<lparr>index := 0\<rparr>) = Inr st'"
        by simp
      then show ?thesis using Cons.IH run_M_inv [OF Cons.prems(2)] inv_index by blast
    next
      case I
      with nd Cons.prems(1) have
        "cigar_loop cs sequence query ((run_I (index st) query st)\<lparr>index := 0\<rparr>) = Inr st'"
        by simp
      then show ?thesis using Cons.IH run_I_inv [OF Cons.prems(2)] inv_index by blast
    next
      case D
      from run_D_inv [OF Cons.prems(2)] obtain st1 where
        r: "run_D (index st) sequence st = Inr st1" and i1: "fold_inv sequence query st1" by blast
      with nd D Cons.prems(1) have
        "cigar_loop cs sequence query (st1\<lparr>index := 0\<rparr>) = Inr st'"
        by simp
      then show ?thesis using Cons.IH i1 inv_index by blast
    next
      case other
      with nd Cons.prems(1) show ?thesis by simp
    qed
  qed
qed

lemma valid_op_char_digit:
  "valid_op_char c \<Longrightarrow> isdigit c \<Longrightarrow> \<exists>d. int_of_char c = Inr d"
  by (auto simp: valid_op_char_def isdigit_def int_of_char_def)

lemma valid_op_char_op:
  "valid_op_char c \<Longrightarrow> \<not> isdigit c \<Longrightarrow> c = CHR ''M'' \<or> c = CHR ''I'' \<or> c = CHR ''D''"
  by (auto simp: valid_op_char_def isdigit_def)

lemma cigar_loop_ok:
  "valid_cigar cs \<Longrightarrow> fold_inv sequence query st \<Longrightarrow> \<exists>st'. cigar_loop cs sequence query st = Inr st'"
proof (induction cs arbitrary: st)
  case Nil
  then show ?case by simp
next
  case (Cons c cs)
  from Cons.prems(1) have vc: "valid_op_char c" and vcs: "valid_cigar cs"
    by (simp_all add: valid_cigar_def)
  show ?case
  proof (cases "isdigit c")
    case True
    from valid_op_char_digit [OF vc True] obtain d where d: "int_of_char c = Inr d" ..
    from Cons.IH [OF vcs inv_index [OF Cons.prems(2)]] True d show ?thesis by simp
  next
    case False
    from run_D_inv [OF Cons.prems(2)] obtain st1 where
      r: "run_D (index st) sequence st = Inr st1" and i1: "fold_inv sequence query st1" by blast
    from valid_op_char_op [OF vc False] show ?thesis
      using False r Cons.IH [OF vcs inv_index [OF run_M_inv [OF Cons.prems(2)]]]
        Cons.IH [OF vcs inv_index [OF run_I_inv [OF Cons.prems(2)]]]
        Cons.IH [OF vcs inv_index [OF i1]]
      by auto
  qed
qed

lemma tail_loop_closed:
  "tail_loop query st =
     st\<lparr>alignment_q := alignment_q st @ drop (q_curr st) query,
        alignment_s := alignment_s st @ replicate (length query - q_curr st) CHR ''-'',
        insertions := insertions st @ replicate (length query - q_curr st) [],
        q_curr := max (q_curr st) (length query),
        col := col st + int (length query - q_curr st)\<rparr>"
proof (induction query st rule: tail_loop.induct)
  case (1 query st)
  show ?case
  proof (cases "q_curr st < length query")
    case True
    define st1 where "st1 = st\<lparr>alignment_q := alignment_q st @ [query ! q_curr st],
                 alignment_s := alignment_s st @ [CHR ''-''],
                 insertions := insertions st @ [[]],
                 q_curr := q_curr st + 1,
                 col := col st + 1\<rparr>"
    have d: "length query - q_curr st = Suc (length query - Suc (q_curr st))"
      using True by simp
    have "tail_loop query st = tail_loop query st1"
      using True by (subst tail_loop.simps) (simp add: st1_def)
    also have "\<dots> = st1\<lparr>alignment_q := alignment_q st1 @ drop (q_curr st1) query,
        alignment_s := alignment_s st1 @ replicate (length query - q_curr st1) CHR ''-'',
        insertions := insertions st1 @ replicate (length query - q_curr st1) [],
        q_curr := max (q_curr st1) (length query),
        col := col st1 + int (length query - q_curr st1)\<rparr>"
      unfolding st1_def by (rule "1.IH" [OF True])
    also have "\<dots> = st\<lparr>alignment_q := alignment_q st @ drop (q_curr st) query,
        alignment_s := alignment_s st @ replicate (length query - q_curr st) CHR ''-'',
        insertions := insertions st @ replicate (length query - q_curr st) [],
        q_curr := max (q_curr st) (length query),
        col := col st + int (length query - q_curr st)\<rparr>"
      using True by (simp add: st1_def d Cons_nth_drop_Suc max_def)
    finally show ?thesis .
  next
    case False
    then show ?thesis by (subst tail_loop.simps) (simp add: max_def)
  qed
qed

lemma run_M_closed:
  "run_M n sequence query st =
     st\<lparr>alignment_q := alignment_q st @
           take (min n (min (length query - q_curr st) (length sequence - s_curr st)))
             (drop (q_curr st) query),
        alignment_s := alignment_s st @
           take (min n (min (length query - q_curr st) (length sequence - s_curr st)))
             (drop (s_curr st) sequence),
        insertions := insertions st @
           replicate (min n (min (length query - q_curr st) (length sequence - s_curr st))) [],
        q_curr := q_curr st + min n (min (length query - q_curr st) (length sequence - s_curr st)),
        s_curr := s_curr st + min n (min (length query - q_curr st) (length sequence - s_curr st)),
        col := col st + int (min n (min (length query - q_curr st) (length sequence - s_curr st)))\<rparr>"
proof (induction n arbitrary: st)
  case 0
  show ?case by simp
next
  case (Suc n)
  show ?case
  proof (cases "q_curr st \<ge> length query \<or> s_curr st \<ge> length sequence")
    case True
    then have "min (Suc n) (min (length query - q_curr st) (length sequence - s_curr st)) = 0"
      by auto
    then show ?thesis using True by simp
  next
    case False
    then have q: "q_curr st < length query" and s: "s_curr st < length sequence" by auto
    have k: "min (Suc n) (min (length query - q_curr st) (length sequence - s_curr st)) =
       Suc (min n (min (length query - Suc (q_curr st)) (length sequence - Suc (s_curr st))))"
      using q s by arith
    have tq: "take (Suc m) (drop (q_curr st) query) =
        query ! q_curr st # take m (drop (Suc (q_curr st)) query)" for m
      using q by (simp add: Cons_nth_drop_Suc [symmetric])
    have ts: "take (Suc m) (drop (s_curr st) sequence) =
        sequence ! s_curr st # take m (drop (Suc (s_curr st)) sequence)" for m
      using s by (simp add: Cons_nth_drop_Suc [symmetric])
    show ?thesis
      using q s by (simp add: Suc.IH k tq ts)
  qed
qed

lemma run_I_closed:
  "run_I n query st =
     st\<lparr>alignment_q := alignment_q st @ take (min n (length query - q_curr st)) (drop (q_curr st) query),
        alignment_s := alignment_s st @ replicate (min n (length query - q_curr st)) CHR ''-'',
        insertions := insertions st @ replicate (min n (length query - q_curr st)) [],
        q_curr := q_curr st + min n (length query - q_curr st),
        col := col st + int (min n (length query - q_curr st))\<rparr>"
proof (induction n arbitrary: st)
  case 0
  show ?case by simp
next
  case (Suc n)
  show ?case
  proof (cases "q_curr st \<ge> length query")
    case True
    then show ?thesis by simp
  next
    case False
    then have q: "q_curr st < length query" by auto
    have k: "min (Suc n) (length query - q_curr st) = Suc (min n (length query - Suc (q_curr st)))"
      using q by arith
    have tq: "take (Suc m) (drop (q_curr st) query) =
        query ! q_curr st # take m (drop (Suc (q_curr st)) query)" for m
      using q by (simp add: Cons_nth_drop_Suc [symmetric])
    show ?thesis
      using q by (simp add: Suc.IH k tq)
  qed
qed

lemma run_D_closed:
  "col st < int (length (insertions st)) \<Longrightarrow>
   run_D n sequence st =
     Inr (st\<lparr>insertions :=
              (if col st \<ge> 0
               then (insertions st)[nat (col st) :=
                      insertions st ! nat (col st) @ map lower (take n (drop (s_curr st) sequence))]
               else insertions st),
            s_curr := s_curr st + min n (length sequence - s_curr st)\<rparr>)"
proof (induction n arbitrary: st)
  case 0
  show ?case by simp
next
  case (Suc n)
  show ?case
  proof (cases "s_curr st \<ge> length sequence")
    case True
    then show ?thesis by simp
  next
    case False
    then have s: "s_curr st < length sequence" by auto
    have k: "min (Suc n) (length sequence - s_curr st) = Suc (min n (length sequence - Suc (s_curr st)))"
      using s by arith
    have t: "take (Suc n) (drop (s_curr st) sequence) =
        sequence ! s_curr st # take n (drop (Suc (s_curr st)) sequence)"
      using s by (simp add: Cons_nth_drop_Suc [symmetric])
    show ?thesis
    proof (cases "col st \<ge> 0")
      case True
      with Suc.prems have c: "nat (col st) < length (insertions st)" by simp
      show ?thesis
        using s True c by (simp add: Suc.IH k t)
    next
      case False
      with Suc.prems show ?thesis
        using s by (simp add: Suc.IH k)
    qed
  qed
qed


lemma run_D_truncated:
  "run_D n sequence st = run_D (min n (length sequence - s_curr st)) sequence st"
proof (induction n arbitrary: st)
  case 0
  show ?case by simp
next
  case (Suc n)
  show ?case
  proof (cases "s_curr st \<ge> length sequence")
    case True
    then show ?thesis by simp
  next
    case False
    then have s: "s_curr st < length sequence" by simp
    have k: "min (Suc n) (length sequence - s_curr st) = Suc (min n (length sequence - Suc (s_curr st)))"
      using s by arith
    show ?thesis
    proof (cases "0 \<le> col st \<and> nat (col st) < length (insertions st)")
      case True
      then show ?thesis
        unfolding k using s
          Suc.IH [of "st\<lparr>insertions := (insertions st)
                       [nat (col st) := insertions st ! nat (col st) @ [lower (sequence ! s_curr st)]],
                    s_curr := s_curr st + 1\<rparr>"]
        by simp
    next
      case False
      then show ?thesis
        unfolding k using s Suc.IH [of "st\<lparr>s_curr := s_curr st + 1\<rparr>"]
        by auto
    qed
  qed
qed

text \<open>
  A superscript digit is outside the CIGAR strings of \<open>valid_cigar\<close>: it passes
  \<open>isdigit\<close>, and \<open>int\<close> raises on it.
\<close>

lemma superscript_digit_raises:
  "cigar_to_alignment_fold [char_of (178 :: nat), CHR ''M''] sequence query =
     Inl (ValueError (''invalid literal for int() with base 10: ''
                        @ [CHR 0x27, char_of (178 :: nat), CHR 0x27]))"
  by (simp add: cigar_to_alignment_fold_def isdigit_def int_of_char_def)

section \<open>The claims about the decoder\<close>

text \<open>
  C1. For every CIGAR string made of ASCII digits and the operators M, I, D, and for every
  subject slice and query slice, the decoder of dia2a3m.py returns normally; the
  column-aligned subject string and the list of insertion strings it returns have
  exactly as many entries as the query slice has characters. The query characters that
  the CIGAR loop left unconsumed are appended as columns holding the gap character, each
  with an empty insertion string.
\<close>

theorem cigar_to_alignment_fold_columns:
  assumes "valid_cigar cigar_string"
  shows "\<exists>st aq as ins.
     cigar_loop cigar_string sequence query init_state = Inr st \<and>
     cigar_to_alignment_fold cigar_string sequence query = Inr (aq, as, ins) \<and>
     length as = length query \<and> length ins = length query \<and>
     aq = alignment_q st @ drop (q_curr st) query \<and>
     as = alignment_s st @ replicate (length query - q_curr st) CHR ''-'' \<and>
     ins = insertions st @ replicate (length query - q_curr st) []"
proof -
  from cigar_loop_ok [OF assms inv_init] obtain st where
    st: "cigar_loop cigar_string sequence query init_state = Inr st" by blast
  from cigar_loop_inv [OF st inv_init] have i: "fold_inv sequence query st" .
  have "cigar_to_alignment_fold cigar_string sequence query =
       Inr (alignment_q st @ drop (q_curr st) query,
            alignment_s st @ replicate (length query - q_curr st) CHR ''-'',
            insertions st @ replicate (length query - q_curr st) [])"
    by (simp add: cigar_to_alignment_fold_def st tail_loop_closed)
  moreover have "length (alignment_s st @ replicate (length query - q_curr st) CHR ''-'') = length query"
    using i by (simp add: fold_inv_def)
  moreover have "length (insertions st @ replicate (length query - q_curr st) []) = length query"
    using i by (simp add: fold_inv_def)
  ultimately show ?thesis using st by blast
qed

theorem cigar_to_alignment_fold_columns_witness:
  "valid_cigar ''2M1D'' \<and>
   (\<exists>aq as ins. cigar_to_alignment_fold ''2M1D'' ''ABC'' ''FGHI'' = Inr (aq, as, ins) \<and>
      length as = length ''FGHI'' \<and> length ins = length ''FGHI'')"
proof -
  have h: "valid_cigar ''2M1D''"
    by (simp add: valid_cigar_def valid_op_char_def)
  from cigar_to_alignment_fold_columns [OF h, of "''ABC''" "''FGHI''"]
  show ?thesis using h by blast
qed

text \<open>
  C3. In any state that the decoder of dia2a3m.py reaches, a D run of \<open>n\<close> units consumes
  subject characters up to the end of the slice and emits no column: the aligned strings
  and the column index are unchanged. The consumed characters, lower-cased, are appended
  to the insertion string of the last column emitted; when no column has been emitted
  they are dropped, and the subject position advances all the same. CIGAR 3M2D2I over
  subject ABCDE and query FGHIJ gives the subject string ABC-- with insertion \<open>de\<close> at
  column index 2 and empty insertions elsewhere.
\<close>

theorem deletion_run_semantics:
  "(cigar_loop pre sequence query init_state = Inr st \<longrightarrow>
      run_D n sequence st =
        Inr (st\<lparr>insertions :=
                 (if insertions st = [] then []
                  else butlast (insertions st) @
                       [last (insertions st) @ map lower (take n (drop (s_curr st) sequence))]),
               s_curr := min (length sequence) (s_curr st + n)\<rparr>)) \<and>
   cigar_to_alignment_fold ''3M2D2I'' ''ABCDE'' ''FGHIJ'' =
     Inr (''FGHIJ'', ''ABC--'', [[], [], ''de'', [], []])"
proof (intro conjI impI)
  assume reach: "cigar_loop pre sequence query init_state = Inr st"
  from cigar_loop_inv [OF reach inv_init] have i: "fold_inv sequence query st" .
  then have c: "col st = int (length (insertions st)) - 1" and s: "s_curr st \<le> length sequence"
    by (simp_all add: fold_inv_def)
  have lt: "col st < int (length (insertions st))" using c by simp
  have m: "s_curr st + min n (length sequence - s_curr st) = min (length sequence) (s_curr st + n)"
    using s by auto
  show "run_D n sequence st =
        Inr (st\<lparr>insertions :=
                 (if insertions st = [] then []
                  else butlast (insertions st) @
                       [last (insertions st) @ map lower (take n (drop (s_curr st) sequence))]),
               s_curr := min (length sequence) (s_curr st + n)\<rparr>)"
  proof (cases "insertions st = []")
    case True
    then show ?thesis using c by (simp add: run_D_closed [OF lt] m)
  next
    case False
    then have n0: "col st \<ge> 0" and nc: "nat (col st) = length (insertions st) - 1"
      using c by (auto simp: Suc_leI)
    have u: "(insertions st)[length (insertions st) - Suc 0 := v] = butlast (insertions st) @ [v]" for v
      using False by (metis One_nat_def append_butlast_last_id length_butlast list_update_length)
    show ?thesis
      using False n0 by (simp add: run_D_closed [OF lt] m nc u last_conv_nth)
  qed
next
  show "cigar_to_alignment_fold ''3M2D2I'' ''ABCDE'' ''FGHIJ'' =
     Inr (''FGHIJ'', ''ABC--'', [[], [], ''de'', [], []])"
    by code_simp
qed

theorem deletion_run_semantics_witness:
  "cigar_loop ''3M2'' ''ABCDE'' ''FGHIJ'' init_state =
     Inr \<lparr>alignment_q = ''FGH'', alignment_s = ''ABC'', insertions = [[], [], []],
          index = 2, s_curr = 3, q_curr = 3, col = 2\<rparr> \<and>
   run_D 2 ''ABCDE''
     \<lparr>alignment_q = ''FGH'', alignment_s = ''ABC'', insertions = [[], [], []],
      index = 2, s_curr = 3, q_curr = 3, col = 2\<rparr> =
     Inr \<lparr>alignment_q = ''FGH'', alignment_s = ''ABC'', insertions = [[], [], ''de''],
          index = 2, s_curr = 5, q_curr = 3, col = 2\<rparr> \<and>
   cigar_loop ''2'' ''ABCDE'' ''FGHIJ'' init_state = Inr (init_state\<lparr>index := 2\<rparr>) \<and>
   run_D 2 ''ABCDE'' (init_state\<lparr>index := 2\<rparr>) = Inr (init_state\<lparr>index := 2, s_curr := 2\<rparr>)"
proof -
  let ?S = "\<lparr>alignment_q = ''FGH'', alignment_s = ''ABC'', insertions = [[], [], []],
          index = 2, s_curr = 3, q_curr = 3, col = 2\<rparr>"
  let ?T = "init_state\<lparr>index := 2\<rparr>"
  have r1: "cigar_loop ''3M2'' ''ABCDE'' ''FGHIJ'' init_state = Inr ?S"
    by code_simp
  have r2: "cigar_loop ''2'' ''ABCDE'' ''FGHIJ'' init_state = Inr ?T"
    by code_simp
  have l: "map lower ''DE'' = ''de''"
    by code_simp
  from deletion_run_semantics [of "''3M2''" "''ABCDE''" "''FGHIJ''" ?S 2] r1
  have "run_D 2 ''ABCDE'' ?S =
        Inr (?S\<lparr>insertions :=
                 (if insertions ?S = [] then []
                  else butlast (insertions ?S) @
                       [last (insertions ?S) @ map lower (take 2 (drop (s_curr ?S) ''ABCDE''))]),
               s_curr := min (length ''ABCDE'') (s_curr ?S + 2)\<rparr>)"
    by blast
  then have a: "run_D 2 ''ABCDE'' ?S =
     Inr \<lparr>alignment_q = ''FGH'', alignment_s = ''ABC'', insertions = [[], [], ''de''],
          index = 2, s_curr = 5, q_curr = 3, col = 2\<rparr>"
    using l by simp
  from deletion_run_semantics [of "''2''" "''ABCDE''" "''FGHIJ''" ?T 2] r2
  have "run_D 2 ''ABCDE'' ?T =
        Inr (?T\<lparr>insertions :=
                 (if insertions ?T = [] then []
                  else butlast (insertions ?T) @
                       [last (insertions ?T) @ map lower (take 2 (drop (s_curr ?T) ''ABCDE''))]),
               s_curr := min (length ''ABCDE'') (s_curr ?T + 2)\<rparr>)"
    by blast
  then have b: "run_D 2 ''ABCDE'' ?T = Inr (init_state\<lparr>index := 2, s_curr := 2\<rparr>)"
    by (simp add: init_state_def)
  from r1 a r2 b show ?thesis by blast
qed

text \<open>
  C4. For every CIGAR string made of ASCII digits and the operators M, I, D, and for
  arbitrary subject and query slices, the decoder of dia2a3m.py returns a result and
  raises nothing. A run stops without an error where the query or the subject slice
  ends: an M, I or D run of \<open>n\<close> repeats does what a run of the number of repeats that the
  slices still allow does, the remaining repeats being skipped.
\<close>

theorem cigar_to_alignment_fold_never_raises:
  "(valid_cigar cigar_string \<longrightarrow>
      (\<exists>aq as ins. cigar_to_alignment_fold cigar_string sequence query = Inr (aq, as, ins))) \<and>
   run_M n sequence query st =
     run_M (min n (min (length query - q_curr st) (length sequence - s_curr st))) sequence query st \<and>
   run_I n query st = run_I (min n (length query - q_curr st)) query st \<and>
   run_D n sequence st = run_D (min n (length sequence - s_curr st)) sequence st"
proof (intro conjI impI)
  assume v: "valid_cigar cigar_string"
  from cigar_loop_ok [OF v inv_init] obtain st' where
    "cigar_loop cigar_string sequence query init_state = Inr st'" by blast
  then show "\<exists>aq as ins. cigar_to_alignment_fold cigar_string sequence query = Inr (aq, as, ins)"
    by (simp add: cigar_to_alignment_fold_def Let_def)
next
  show "run_M n sequence query st =
     run_M (min n (min (length query - q_curr st) (length sequence - s_curr st))) sequence query st"
    by (simp add: run_M_closed [of n] run_M_closed [of "min n (min (length query - q_curr st) (length sequence - s_curr st))"])
next
  show "run_I n query st = run_I (min n (length query - q_curr st)) query st"
    by (simp add: run_I_closed [of n] run_I_closed [of "min n (length query - q_curr st)"])
next
  show "run_D n sequence st = run_D (min n (length sequence - s_curr st)) sequence st"
    by (rule run_D_truncated)
qed

theorem cigar_to_alignment_fold_never_raises_witness:
  "valid_cigar ''30M9D'' \<and>
   (\<exists>aq as ins. cigar_to_alignment_fold ''30M9D'' ''ABCDE'' ''FGHIJKL'' = Inr (aq, as, ins))"
proof -
  have h: "valid_cigar ''30M9D''"
    by (simp add: valid_cigar_def valid_op_char_def)
  from cigar_to_alignment_fold_never_raises [of "''30M9D''" "''ABCDE''" "''FGHIJKL''"] h
  show ?thesis by blast
qed

section \<open>The two decoders\<close>

lemma decoders_simulate:
  assumes "valid_cigar cs" and "fold_inv sequence query st" and "fold_star_rel st ss"
    and "q_curr st + fst (cigar_needs cs (index st)) \<le> length query"
    and "s_curr st + snd (cigar_needs cs (index st)) \<le> length sequence"
  shows "\<exists>st' ss'. cigar_loop cs sequence query st = Inr st' \<and>
           star_loop cs sequence query ss = Inr ss' \<and>
           fold_star_rel st' ss' \<and> fold_inv sequence query st'"
  using assms
proof (induction cs arbitrary: st ss)
  case Nil
  then show ?case by simp
next
  case (Cons c cs)
  from Cons.prems(1) have vc: "valid_op_char c" and vcs: "valid_cigar cs"
    by (simp_all add: valid_cigar_def)
  note i = Cons.prems(2) and r = Cons.prems(3)
  show ?case
  proof (cases "isdigit c")
    case True
    then have asc: "48 \<le> (of_char c :: nat) \<and> (of_char c :: nat) \<le> 57"
      using vc by (auto simp: valid_op_char_def isdigit_def)
    then have d: "int_of_char c = Inr ((of_char c :: nat) - 48)"
      by (simp add: int_of_char_def)
    let ?st1 = "st\<lparr>index := index st * 10 + ((of_char c :: nat) - 48)\<rparr>"
    let ?ss1 = "ss\<lparr>index_star := index_star ss * 10 + ((of_char c :: nat) - 48)\<rparr>"
    have i1: "fold_inv sequence query ?st1" using i by (rule inv_index)
    have r1: "fold_star_rel ?st1 ?ss1" using r by (simp add: fold_star_rel_def)
    have q1: "q_curr ?st1 + fst (cigar_needs cs (index ?st1)) \<le> length query"
      using Cons.prems(4) asc by simp
    have s1: "s_curr ?st1 + snd (cigar_needs cs (index ?st1)) \<le> length sequence"
      using Cons.prems(5) asc by simp
    from Cons.IH [OF vcs i1 r1 q1 s1] True d show ?thesis by simp
  next
    case False
    note nd = False
    then have nasc: "\<not> (48 \<le> (of_char c :: nat) \<and> (of_char c :: nat) \<le> 57)"
      by (auto simp: isdigit_def)
    from valid_op_char_op [OF vc nd] consider
      (M) "c = CHR ''M''" | (I) "c = CHR ''I''" | (D) "c = CHR ''D''" by blast
    then show ?thesis
    proof cases
      case M
      from Cons.prems(4,5) nasc M have
        q: "q_curr st + index st + fst (cigar_needs cs 0) \<le> length query" and
        s: "s_curr st + index st + snd (cigar_needs cs 0) \<le> length sequence"
        by simp_all
      have k: "min (index st) (min (length query - q_curr st) (length sequence - s_curr st)) = index st"
        using q s by arith
      let ?st1 = "(run_M (index st) sequence query st)\<lparr>index := 0\<rparr>"
      let ?ss1 = "ss\<lparr>alignment_s_star :=
                 alignment_s_star ss @ take (index_star ss) (drop (s_curr_star ss) sequence),
              alignment_q_star :=
                 alignment_q_star ss @ take (index_star ss) (drop (q_curr_star ss) query),
              s_curr_star := s_curr_star ss + index_star ss,
              q_curr_star := q_curr_star ss + index_star ss,
              index_star := 0\<rparr>"
      have i1: "fold_inv sequence query ?st1" using run_M_inv [OF i] by (rule inv_index)
      have r1: "fold_star_rel ?st1 ?ss1"
        using r by (simp add: fold_star_rel_def run_M_closed k)
      have q1: "q_curr ?st1 + fst (cigar_needs cs (index ?st1)) \<le> length query"
        using q by (simp add: run_M_closed k)
      have s1: "s_curr ?st1 + snd (cigar_needs cs (index ?st1)) \<le> length sequence"
        using s by (simp add: run_M_closed k)
      from Cons.IH [OF vcs i1 r1 q1 s1] nd M show ?thesis by simp
    next
      case I
      from Cons.prems(4,5) nasc I have
        q: "q_curr st + index st + fst (cigar_needs cs 0) \<le> length query" and
        s: "s_curr st + snd (cigar_needs cs 0) \<le> length sequence"
        by simp_all
      have k: "min (index st) (length query - q_curr st) = index st"
        using q by arith
      let ?st1 = "(run_I (index st) query st)\<lparr>index := 0\<rparr>"
      let ?ss1 = "ss\<lparr>alignment_q_star :=
                 alignment_q_star ss @ take (index_star ss) (drop (q_curr_star ss) query),
              alignment_s_star := alignment_s_star ss @ replicate (index_star ss) CHR ''-'',
              q_curr_star := q_curr_star ss + index_star ss,
              index_star := 0\<rparr>"
      have i1: "fold_inv sequence query ?st1" using run_I_inv [OF i] by (rule inv_index)
      have r1: "fold_star_rel ?st1 ?ss1"
        using r by (simp add: fold_star_rel_def run_I_closed k)
      have q1: "q_curr ?st1 + fst (cigar_needs cs (index ?st1)) \<le> length query"
        using q by (simp add: run_I_closed k)
      have s1: "s_curr ?st1 + snd (cigar_needs cs (index ?st1)) \<le> length sequence"
        using s by (simp add: run_I_closed k)
      from Cons.IH [OF vcs i1 r1 q1 s1] nd I show ?thesis by simp
    next
      case D
      from Cons.prems(4,5) nasc D have
        q: "q_curr st + fst (cigar_needs cs 0) \<le> length query" and
        s: "s_curr st + index st + snd (cigar_needs cs 0) \<le> length sequence"
        by simp_all
      have k: "min (index st) (length sequence - s_curr st) = index st"
        using s by arith
      have lt: "col st < int (length (insertions st))" using i by (simp add: fold_inv_def)
      from run_D_inv [OF i] obtain st0 where
        rd: "run_D (index st) sequence st = Inr st0" and i0: "fold_inv sequence query st0" by blast
      from rd have st0: "st0 = st\<lparr>insertions :=
              (if col st \<ge> 0
               then (insertions st)[nat (col st) :=
                      insertions st ! nat (col st) @ map lower (take (index st) (drop (s_curr st) sequence))]
               else insertions st),
            s_curr := s_curr st + index st\<rparr>"
        by (simp add: run_D_closed [OF lt] k)
      let ?st1 = "st0\<lparr>index := 0\<rparr>"
      let ?ss1 = "ss\<lparr>s_curr_star := s_curr_star ss + index_star ss, index_star := 0\<rparr>"
      have i1: "fold_inv sequence query ?st1" using i0 by (rule inv_index)
      have r1: "fold_star_rel ?st1 ?ss1"
        using r by (simp add: fold_star_rel_def st0)
      have q1: "q_curr ?st1 + fst (cigar_needs cs (index ?st1)) \<le> length query"
        using q by (simp add: st0)
      have s1: "s_curr ?st1 + snd (cigar_needs cs (index ?st1)) \<le> length sequence"
        using s by (simp add: st0)
      from Cons.IH [OF vcs i1 r1 q1 s1] nd D rd show ?thesis by simp
    qed
  qed
qed

text \<open>
  C10. For every CIGAR string made of ASCII digits and the operators M, I, D, and every
  subject slice and query slice long enough for all its runs (the M and I runs together
  ask for no more characters than the query slice has, the M and D runs for no more than
  the subject slice has), the decoder of dia2a3m.py and the decoder of
  star\_alighnment\_DIAMOND.py return the same aligned query string and the same
  column-aligned subject string. The star decoder returns no insertion strings.
\<close>

theorem decoders_agree:
  assumes "valid_cigar cigar_string" and "no_overrun cigar_string sequence query"
  shows "\<exists>aq as ins.
           cigar_to_alignment_fold cigar_string sequence query = Inr (aq, as, ins) \<and>
           cigar_to_alignment_fold_star cigar_string sequence query = Inr (aq, as)"
proof -
  have r0: "fold_star_rel init_state init_star"
    by (simp add: fold_star_rel_def init_state_def init_star_def)
  have q0: "q_curr init_state + fst (cigar_needs cigar_string (index init_state)) \<le> length query"
    using assms(2) by (simp add: no_overrun_def init_state_def)
  have s0: "s_curr init_state + snd (cigar_needs cigar_string (index init_state)) \<le> length sequence"
    using assms(2) by (simp add: no_overrun_def init_state_def)
  from decoders_simulate [OF assms(1) inv_init r0 q0 s0] obtain st ss where
    a: "cigar_loop cigar_string sequence query init_state = Inr st" and
    b: "star_loop cigar_string sequence query init_star = Inr ss" and
    r: "fold_star_rel st ss" and i: "fold_inv sequence query st" by blast
  from i have la: "length (alignment_q st) = q_curr st" and ls: "length (alignment_s st) = q_curr st"
    and le: "q_curr st \<le> length query"
    by (simp_all add: fold_inv_def)
  have fa: "cigar_to_alignment_fold cigar_string sequence query =
       Inr (alignment_q st @ drop (q_curr st) query,
            alignment_s st @ replicate (length query - q_curr st) CHR ''-'',
            insertions st @ replicate (length query - q_curr st) [])"
    by (simp add: cigar_to_alignment_fold_def a tail_loop_closed)
  have fb: "cigar_to_alignment_fold_star cigar_string sequence query =
       Inr (alignment_q st @ drop (q_curr st) query,
            alignment_s st @ replicate (length query - q_curr st) CHR ''-'')"
    using r la ls le by (auto simp: cigar_to_alignment_fold_star_def b fold_star_rel_def Let_def)
  from fa fb show ?thesis by blast
qed

theorem decoders_agree_witness:
  "valid_cigar ''3M2D2I'' \<and> no_overrun ''3M2D2I'' ''ABCDE'' ''FGHIJKL'' \<and>
   cigar_to_alignment_fold ''3M2D2I'' ''ABCDE'' ''FGHIJKL'' =
     Inr (''FGHIJKL'', ''ABC----'', [[], [], ''de'', [], [], [], []]) \<and>
   cigar_to_alignment_fold_star ''3M2D2I'' ''ABCDE'' ''FGHIJKL'' = Inr (''FGHIJKL'', ''ABC----'')"
proof -
  have v: "valid_cigar ''3M2D2I''"
    by (simp add: valid_cigar_def valid_op_char_def)
  have n: "no_overrun ''3M2D2I'' ''ABCDE'' ''FGHIJKL''"
    by (simp add: no_overrun_def)
  have f: "cigar_to_alignment_fold ''3M2D2I'' ''ABCDE'' ''FGHIJKL'' =
     Inr (''FGHIJKL'', ''ABC----'', [[], [], ''de'', [], [], [], []])"
    by code_simp
  from decoders_agree [OF v n] f show ?thesis using v n by auto
qed

section \<open>The A3M writer\<close>

lemma slice_lengths: "length (slice_to k xs) + length (slice_from k xs) = length xs"
  by (auto simp: slice_to_def slice_from_def min_def)


lemma decoder_lengths:
  assumes "valid_cigar cigar_string"
  shows "\<exists>aq s_aln ins.
           cigar_to_alignment_fold cigar_string sequence query = Inr (aq, s_aln, ins) \<and>
           length s_aln = length query \<and> length ins = length query"
proof -
  from cigar_loop_ok [OF assms inv_init] obtain st where
    st: "cigar_loop cigar_string sequence query init_state = Inr st" by blast
  from cigar_loop_inv [OF st inv_init] have "fold_inv sequence query st" .
  then show ?thesis
    by (simp add: cigar_to_alignment_fold_def st tail_loop_closed fold_inv_def)
qed

lemma content_init: "fold_content sequence init_state"
  by (simp add: fold_content_def init_state_def)

lemma content_index: "fold_content sequence st \<Longrightarrow> fold_content sequence (st\<lparr>index := k\<rparr>)"
  by (simp add: fold_content_def)

lemma run_M_content:
  "fold_content sequence st \<Longrightarrow> fold_content sequence (run_M n sequence query st)"
  by (auto simp: fold_content_def run_M_closed dest: in_set_takeD in_set_dropD)

lemma run_I_content:
  "fold_content sequence st \<Longrightarrow> fold_content sequence (run_I n query st)"
  by (auto simp: fold_content_def run_I_closed)

lemma run_D_content:
  assumes "col st < int (length (insertions st))" and "fold_content sequence st"
    and "run_D n sequence st = Inr st'"
  shows "fold_content sequence st'"
proof -
  let ?v = "insertions st ! nat (col st) @ map lower (take n (drop (s_curr st) sequence))"
  from assms(3) have st': "st' = st\<lparr>insertions :=
              (if col st \<ge> 0 then (insertions st)[nat (col st) := ?v] else insertions st),
            s_curr := s_curr st + min n (length sequence - s_curr st)\<rparr>"
    by (simp add: run_D_closed [OF assms(1)])
  have a: "set (alignment_s st') \<subseteq> insert CHR ''-'' (set sequence)"
    using assms(2) by (simp add: st' fold_content_def)
  have b: "set x \<subseteq> lower ` set sequence" if x: "x \<in> set (insertions st')" for x
  proof (cases "col st \<ge> 0")
    case True
    with assms(1) have i: "nat (col st) < length (insertions st)" by simp
    from x True have "x \<in> set ((insertions st)[nat (col st) := ?v])" by (simp add: st')
    then have "x = ?v \<or> x \<in> set (insertions st)"
      using set_update_subset_insert [of "insertions st" "nat (col st)" ?v] by auto
    then show ?thesis
    proof
      assume "x = ?v"
      moreover have "set (insertions st ! nat (col st)) \<subseteq> lower ` set sequence"
        using assms(2) nth_mem [OF i] by (simp add: fold_content_def)
      moreover have "set (map lower (take n (drop (s_curr st) sequence))) \<subseteq> lower ` set sequence"
        by (auto dest: in_set_takeD in_set_dropD)
      ultimately show ?thesis by simp
    next
      assume "x \<in> set (insertions st)"
      then show ?thesis using assms(2) by (simp add: fold_content_def)
    qed
  next
    case False
    with x have "x \<in> set (insertions st)" by (simp add: st')
    then show ?thesis using assms(2) by (simp add: fold_content_def)
  qed
  from a b show ?thesis by (simp add: fold_content_def)
qed

lemma cigar_loop_content:
  "cigar_loop cs sequence query st = Inr st' \<Longrightarrow> fold_inv sequence query st \<Longrightarrow>
   fold_content sequence st \<Longrightarrow> fold_content sequence st'"
proof (induction cs arbitrary: st)
  case Nil
  then show ?case by simp
next
  case (Cons c cs)
  note i = Cons.prems(2) and k = Cons.prems(3)
  show ?case
  proof (cases "isdigit c")
    case True
    with Cons.prems(1) obtain d where
      "cigar_loop cs sequence query (st\<lparr>index := index st * 10 + d\<rparr>) = Inr st'"
      by (auto split: sum.splits)
    then show ?thesis using Cons.IH inv_index [OF i] content_index [OF k] by blast
  next
    case False
    note nd = False
    consider (M) "c = CHR ''M''" | (I) "c = CHR ''I''" | (D) "c = CHR ''D''"
      | (other) "c \<noteq> CHR ''M''" "c \<noteq> CHR ''I''" "c \<noteq> CHR ''D''" by blast
    then show ?thesis
    proof cases
      case M
      with nd Cons.prems(1) have
        "cigar_loop cs sequence query ((run_M (index st) sequence query st)\<lparr>index := 0\<rparr>) = Inr st'"
        by simp
      then show ?thesis
        using Cons.IH inv_index [OF run_M_inv [OF i]] content_index [OF run_M_content [OF k]]
        by blast
    next
      case I
      with nd Cons.prems(1) have
        "cigar_loop cs sequence query ((run_I (index st) query st)\<lparr>index := 0\<rparr>) = Inr st'"
        by simp
      then show ?thesis
        using Cons.IH inv_index [OF run_I_inv [OF i]] content_index [OF run_I_content [OF k]]
        by blast
    next
      case D
      from run_D_inv [OF i] obtain st1 where
        r: "run_D (index st) sequence st = Inr st1" and i1: "fold_inv sequence query st1" by blast
      from i have lt: "col st < int (length (insertions st))" by (simp add: fold_inv_def)
      from run_D_content [OF lt k r] have k1: "fold_content sequence st1" .
      from r nd D Cons.prems(1) have
        "cigar_loop cs sequence query (st1\<lparr>index := 0\<rparr>) = Inr st'"
        by simp
      then show ?thesis using Cons.IH inv_index [OF i1] content_index [OF k1] by blast
    next
      case other
      with nd Cons.prems(1) show ?thesis by simp
    qed
  qed
qed

lemma decoder_content:
  assumes "cigar_to_alignment_fold cigar_string sequence query = Inr (aq, s_aln, ins)"
  shows "set s_aln \<subseteq> insert CHR ''-'' (set sequence) \<and>
         (\<forall>x\<in>set ins. set x \<subseteq> lower ` set sequence)"
proof -
  from assms obtain st where
    st: "cigar_loop cigar_string sequence query init_state = Inr st"
    by (auto simp: cigar_to_alignment_fold_def split: sum.splits)
  from cigar_loop_content [OF st inv_init content_init] have "fold_content sequence st" .
  with assms st show ?thesis
    by (auto simp: cigar_to_alignment_fold_def tail_loop_closed fold_content_def)
qed

lemma slice_from_subset: "set (slice_from k xs) \<subseteq> set xs"
  by (auto simp: slice_from_def dest: in_set_dropD)

lemma hit_alignment_wellformed:
  assumes "wellformed_hit py_int l"
  shows "\<exists>s_full ins_full i.
           hit_alignment py_int q_seq l = Inr (s_full, ins_full, l ! 4) \<and>
           length s_full = length q_seq \<and> length ins_full = length q_seq \<and>
           py_int (l ! 2) = Inr i \<and>
           take (length (slice_to (i - 1) q_seq)) s_full =
             replicate (length (slice_to (i - 1) q_seq)) CHR ''-'' \<and>
           set s_full \<subseteq> insert CHR ''-'' (set (l ! 0)) \<and>
           (\<forall>x\<in>set ins_full. set x \<subseteq> lower ` set (l ! 0))"
proof -
  from assms obtain i j where
    len: "5 \<le> length l" and v: "valid_cigar (l ! 1)" and
    i: "py_int (l ! 2) = Inr i" and j: "py_int (l ! 3) = Inr j"
    by (auto simp: wellformed_hit_def)
  from decoder_lengths [OF v, of "slice_from (j - 1) (l ! 0)" "slice_from (i - 1) q_seq"]
  obtain aq s_aln ins where
    d: "cigar_to_alignment_fold (l ! 1) (slice_from (j - 1) (l ! 0)) (slice_from (i - 1) q_seq) =
         Inr (aq, s_aln, ins)" and
    ls: "length s_aln = length (slice_from (i - 1) q_seq)" and
    li: "length ins = length (slice_from (i - 1) q_seq)"
    by blast
  note sub = slice_from_subset [of "j - 1" "l ! 0"]
  from decoder_content [OF d] sub
  have cs: "set s_aln \<subseteq> insert CHR ''-'' (set (l ! 0))"
    by blast
  have im: "lower ` set (slice_from (j - 1) (l ! 0)) \<subseteq> lower ` set (l ! 0)"
    using sub by (rule image_mono)
  from decoder_content [OF d] im
  have ci: "\<forall>x\<in>set ins. set x \<subseteq> lower ` set (l ! 0)"
    by blast
  have full: "length (slice_to (i - 1) q_seq) + length s_aln = length q_seq"
    "length (slice_to (i - 1) q_seq) + length ins = length q_seq"
    using slice_lengths [of "i - 1" q_seq] ls li by simp_all
  have h: "hit_alignment py_int q_seq l =
          Inr (replicate (length (slice_to (i - 1) q_seq)) CHR ''-'' @ s_aln,
               replicate (length (slice_to (i - 1) q_seq)) [] @ ins, l ! 4)"
    using full len i j d by (auto simp: hit_alignment_def item_def Let_def)
  have c1: "set (replicate (length (slice_to (i - 1) q_seq)) CHR ''-'' @ s_aln)
              \<subseteq> insert CHR ''-'' (set (l ! 0))"
    using cs by auto
  have c2: "\<forall>x\<in>set (replicate (length (slice_to (i - 1) q_seq)) [] @ ins).
              set x \<subseteq> lower ` set (l ! 0)"
    using ci by auto
  from h full i c1 c2 show ?thesis by auto
qed












section \<open>Errors of the decoder in the conversion loop\<close>

lemma cigar_loop_append:
  "cigar_loop (pre @ rest) sequence query st =
     (case cigar_loop pre sequence query st of
        Inl e \<Rightarrow> Inl e
      | Inr st' \<Rightarrow> cigar_loop rest sequence query st')"
  by (induction pre arbitrary: st) (auto split: sum.splits)

lemma decoder_invalid_operator:
  assumes "valid_cigar pre" and "\<not> isdigit c"
    and "c \<noteq> CHR ''M''" and "c \<noteq> CHR ''I''" and "c \<noteq> CHR ''D''"
  shows "cigar_to_alignment_fold (pre @ c # post) sequence query =
           Inl (ValueError (''Invalid CIGAR character: '' @ [c]))"
proof -
  from cigar_loop_ok [OF assms(1) inv_init] obtain st where
    "cigar_loop pre sequence query init_state = Inr st" by blast
  then have "cigar_loop (pre @ c # post) sequence query init_state =
      Inl (ValueError (''Invalid CIGAR character: '' @ [c]))"
    using assms(2-5) by (simp add: cigar_loop_append)
  then show ?thesis by (simp add: cigar_to_alignment_fold_def)
qed

lemma target_alignments_raise:
  assumes "\<forall>h\<in>set hs1. wellformed_hit py_int h" and "hit_alignment py_int q_seq l = Inl e"
  shows "target_alignments py_int q_seq (hs1 @ l # hs2) = Inl e"
  using assms(1)
proof (induction hs1)
  case Nil
  show ?case by (simp add: assms(2))
next
  case (Cons h hs)
  from Cons.prems have w: "wellformed_hit py_int h" by simp
  from hit_alignment_wellformed [OF w, of q_seq] obtain t where
    "hit_alignment py_int q_seq h = Inr t" by blast
  then show ?case using Cons by simp
qed

lemma conversion_loop_append:
  "conversion_loop py_int open_w queries_seq (xs @ ys) files =
     (case conversion_loop py_int open_w queries_seq xs files of
        (files1, None) \<Rightarrow> conversion_loop py_int open_w queries_seq ys files1
      | (files1, Some e) \<Rightarrow> (files1, Some e))"
proof (induction xs arbitrary: files)
  case Nil
  show ?case by simp
next
  case (Cons x xs)
  obtain query all_hits where x: "x = (query, all_hits)" by (cases x)
  show ?case
  proof (cases "queries_seq query")
    case None
    then show ?thesis by (simp add: x Cons.IH)
  next
    case (Some q_seq)
    note q = Some
    show ?thesis
    proof (cases "hits_to_a3m py_int open_w q_seq all_hits query")
      case (Inl e)
      then show ?thesis by (simp add: x q)
    next
      case (Inr b)
      have "conversion_loop py_int open_w queries_seq ((x # xs) @ ys) files =
            conversion_loop py_int open_w queries_seq (xs @ ys) (files(query @ ''.a3m'' \<mapsto> b))"
        by (simp add: x q Inr)
      also have "\<dots> =
         (case conversion_loop py_int open_w queries_seq xs (files(query @ ''.a3m'' \<mapsto> b)) of
            (files1, None) \<Rightarrow> conversion_loop py_int open_w queries_seq ys files1
          | (files1, Some e) \<Rightarrow> (files1, Some e))"
        by (rule Cons.IH)
      also have "conversion_loop py_int open_w queries_seq xs (files(query @ ''.a3m'' \<mapsto> b)) =
            conversion_loop py_int open_w queries_seq (x # xs) files"
        by (simp add: x q Inr)
      finally show ?thesis .
    qed
  qed
qed

text \<open>
  C2, as amended. When the decoder of dia2a3m.py meets, after a prefix of ASCII digits
  and operators M, I, D, a character that is not a digit and not one of M, I, D, it
  raises a ValueError that names the character. Nothing catches it: for a hit record
  with such a CIGAR string, read after hits that decode, \<open>hits_to_a3m\<close> raises the same
  error and writes no file for the query, and the conversion loop ends with that error.
  The files written for the queries before it stay, and the queries after it are not
  converted.
\<close>

theorem invalid_operator_aborts_conversion:
  assumes "valid_cigar pre" and "\<not> isdigit c"
    and "c \<noteq> CHR ''M''" and "c \<noteq> CHR ''I''" and "c \<noteq> CHR ''D''"
    and "5 \<le> length l" and "l ! 1 = pre @ c # post"
    and "py_int (l ! 2) = Inr i" and "py_int (l ! 3) = Inr j"
    and "\<forall>h\<in>set hs1. wellformed_hit py_int h"
    and "queries_seq query = Some q_seq"
    and "conversion_loop py_int open_w queries_seq before files = (files1, None)"
  shows "cigar_to_alignment_fold (pre @ c # post) sequence q_aln =
           Inl (ValueError (''Invalid CIGAR character: '' @ [c])) \<and>
         hits_to_a3m py_int open_w q_seq (hs1 @ l # hs2) query =
           Inl (ValueError (''Invalid CIGAR character: '' @ [c])) \<and>
         conversion_loop py_int open_w queries_seq (before @ (query, hs1 @ l # hs2) # after) files =
           (files1, Some (ValueError (''Invalid CIGAR character: '' @ [c])))"
proof -
  let ?e = "ValueError (''Invalid CIGAR character: '' @ [c])"
  note dec = decoder_invalid_operator [OF assms(1-5)]
  have "hit_alignment py_int (strip q_seq) l = Inl ?e"
    using assms(6-9) dec [of post "slice_from (j - 1) (l ! 0)" "slice_from (i - 1) (strip q_seq)"]
    by (auto simp: hit_alignment_def item_def Let_def)
  from target_alignments_raise [OF assms(10) this]
  have h: "hits_to_a3m py_int open_w q_seq (hs1 @ l # hs2) query = Inl ?e"
    by (simp add: hits_to_a3m_def)
  have "conversion_loop py_int open_w queries_seq (before @ (query, hs1 @ l # hs2) # after) files =
           (files1, Some ?e)"
    by (simp add: conversion_loop_append assms(11,12) h)
  with dec h show ?thesis by blast
qed

theorem invalid_operator_aborts_conversion_witness:
  "valid_cigar ''3'' \<and> \<not> isdigit CHR ''X'' \<and>
   dec_int ''1'' = Inr 1 \<and>
   wellformed_hit dec_int [''ABCDE'', ''2M'', ''1'', ''1'', ''h1''] \<and>
   conversion_loop dec_int flat_dir_open [''q0'' \<mapsto> ''FG'', ''q1'' \<mapsto> ''FGHIJ'', ''q2'' \<mapsto> ''FGHIJ'']
     [(''q0'', [[''AB'', ''2M'', ''1'', ''1'', ''h0'']])] Map.empty =
     ([''q0.a3m'' \<mapsto> [''>q0'', ''FG'', ''>h0'', ''AB'']], None) \<and>
   conversion_loop dec_int flat_dir_open [''q0'' \<mapsto> ''FG'', ''q1'' \<mapsto> ''FGHIJ'', ''q2'' \<mapsto> ''FGHIJ'']
     ([(''q0'', [[''AB'', ''2M'', ''1'', ''1'', ''h0'']])]
      @ (''q1'', [[''ABCDE'', ''2M'', ''1'', ''1'', ''h1'']]
                 @ [''ABCDE'', ''3X'', ''1'', ''1'', ''h2''] # [[''ABCDE'', ''3M'', ''1'', ''1'', ''h3'']])
      # [(''q2'', [[''ABCDE'', ''3M'', ''1'', ''1'', ''h4'']])]) Map.empty =
     ([''q0.a3m'' \<mapsto> [''>q0'', ''FG'', ''>h0'', ''AB'']],
      Some (ValueError ''Invalid CIGAR character: X''))"
proof -
  let ?qs = "[''q0'' \<mapsto> ''FG'', ''q1'' \<mapsto> ''FGHIJ'', ''q2'' \<mapsto> ''FGHIJ'']"
  have a: "valid_cigar ''3''" by (simp add: valid_cigar_def valid_op_char_def)
  have b: "\<not> isdigit CHR ''X''" by (simp add: isdigit_def)
  have d: "dec_int ''1'' = Inr 1" by (simp add: dec_int_def ascii_digits_def)
  have w1: "wellformed_hit dec_int [''ABCDE'', ''2M'', ''1'', ''1'', ''h1'']"
    by (simp add: wellformed_hit_def valid_cigar_def valid_op_char_def dec_int_def ascii_digits_def)
  then have w: "\<forall>h\<in>set [[''ABCDE'', ''2M'', ''1'', ''1'', ''h1'']]. wellformed_hit dec_int h"
    by simp
  have q: "?qs ''q1'' = Some ''FGHIJ''" by simp
  have h0: "hits_to_a3m dec_int flat_dir_open ''FG'' [[''AB'', ''2M'', ''1'', ''1'', ''h0'']] ''q0'' =
     Inr [''>q0'', ''FG'', ''>h0'', ''AB'']"
    by code_simp
  have c0: "conversion_loop dec_int flat_dir_open ?qs [(''q0'', [[''AB'', ''2M'', ''1'', ''1'', ''h0'']])] Map.empty =
     ([''q0.a3m'' \<mapsto> [''>q0'', ''FG'', ''>h0'', ''AB'']], None)"
    by (simp add: h0)
  from invalid_operator_aborts_conversion
    [where pre = "''3''" and c = "CHR ''X''" and l = "[''ABCDE'', ''3X'', ''1'', ''1'', ''h2'']"
       and post = "[]" and py_int = dec_int and i = 1 and j = 1
       and ?hs1.0 = "[[''ABCDE'', ''2M'', ''1'', ''1'', ''h1'']]" and queries_seq = ?qs
       and query = "''q1''" and q_seq = "''FGHIJ''"
       and before = "[(''q0'', [[''AB'', ''2M'', ''1'', ''1'', ''h0'']])]" and files = Map.empty
       and ?files1.0 = "[''q0.a3m'' \<mapsto> [''>q0'', ''FG'', ''>h0'', ''AB'']]"
       and ?hs2.0 = "[[''ABCDE'', ''3M'', ''1'', ''1'', ''h3'']]"
       and after = "[(''q2'', [[''ABCDE'', ''3M'', ''1'', ''1'', ''h4'']])]"]
  have "conversion_loop dec_int flat_dir_open ?qs
     ([(''q0'', [[''AB'', ''2M'', ''1'', ''1'', ''h0'']])]
      @ (''q1'', [[''ABCDE'', ''2M'', ''1'', ''1'', ''h1'']]
                 @ [''ABCDE'', ''3X'', ''1'', ''1'', ''h2''] # [[''ABCDE'', ''3M'', ''1'', ''1'', ''h3'']])
      # [(''q2'', [[''ABCDE'', ''3M'', ''1'', ''1'', ''h4'']])]) Map.empty =
     ([''q0.a3m'' \<mapsto> [''>q0'', ''FG'', ''>h0'', ''AB'']],
      Some (ValueError ''Invalid CIGAR character: X''))"
    using a b d w c0 by simp
  then show ?thesis using a b d w1 c0 by blast
qed

text \<open>
  C2, as stated, fails. With a first hit whose CIGAR string is 3X, the conversion loop
  stops with the ValueError: it writes nothing for the second hit of the same query and
  nothing for the second query, whose only hit is valid.
\<close>

theorem conversion_loop_catches_counterexample:
  "conversion_loop dec_int flat_dir_open [''q1'' \<mapsto> ''FGHIJ'', ''q2'' \<mapsto> ''FGHIJ'']
     [(''q1'', [[''ABCDE'', ''3X'', ''1'', ''1'', ''h1''], [''ABCDE'', ''3M'', ''1'', ''1'', ''h2'']]),
      (''q2'', [[''ABCDE'', ''3M'', ''1'', ''1'', ''h3'']])] Map.empty =
     (Map.empty, Some (ValueError ''Invalid CIGAR character: X''))"
proof -
  have "hits_to_a3m dec_int flat_dir_open ''FGHIJ''
          [[''ABCDE'', ''3X'', ''1'', ''1'', ''h1''], [''ABCDE'', ''3M'', ''1'', ''1'', ''h2'']] ''q1'' =
        Inl (ValueError ''Invalid CIGAR character: X'')"
    by code_simp
  then show ?thesis by simp
qed

section \<open>The alignment metrics\<close>

lemma counter_fold_same:
  "foldl (\<lambda>acc x. counter_add x acc) [(r, m)] (replicate k r) = [(r, m + k)]"
  by (induction k arbitrary: m) simp_all

lemma Counter_replicate: "Counter (replicate (Suc k) r) = [(r, Suc k)]"
  by (simp add: Counter_def counter_fold_same)

lemma col_entropy_None: "col_entropy column = None \<longleftrightarrow> all_gaps column"
  by (auto simp: col_entropy_def all_gaps_def Let_def filter_empty_conv list_all_iff)

lemma col_entropy_identical:
  assumes "\<exists>c\<in>set column. c \<notin> GAP_CHARS"
    and "\<forall>c\<in>set column. \<forall>d\<in>set column. c \<notin> GAP_CHARS \<longrightarrow> d \<notin> GAP_CHARS \<longrightarrow> c = d"
  shows "col_entropy column = Some 0"
proof -
  let ?res = "filter (\<lambda>c. c \<notin> GAP_CHARS) column"
  from assms(1) obtain r where r: "r \<in> set column" "r \<notin> GAP_CHARS" by blast
  then have ne: "?res \<noteq> []" by (auto simp: filter_empty_conv)
  then obtain k where k: "length ?res = Suc k" by (cases ?res) auto
  have "\<And>y. y \<in> set ?res \<Longrightarrow> y = r" using assms(2) r by auto
  then have "?res = replicate (Suc k) r" using k by (intro replicate_eqI) auto
  then show ?thesis using ne
    by (simp add: col_entropy_def Let_def Counter_replicate del: replicate_Suc)
qed

lemma msa_column_ok:
  "\<forall>row\<in>set msa. i < length row \<Longrightarrow> msa_column msa i = Inr (map (\<lambda>row. row ! i) msa)"
  by (induction msa) simp_all

lemma ents_loop_ok:
  "\<forall>i\<in>set is. \<forall>row\<in>set msa. i < length row \<Longrightarrow>
   ents_loop msa is ents =
     Inr (ents @ map (\<lambda>c. the (col_entropy c))
                   (filter (\<lambda>c. \<not> all_gaps c) (map (\<lambda>i. map (\<lambda>row. row ! i) msa) is)))"
proof (induction "is" arbitrary: ents)
  case Nil
  show ?case by simp
next
  case (Cons i "is")
  from Cons.prems have c: "msa_column msa i = Inr (map (\<lambda>row. row ! i) msa)"
    by (simp add: msa_column_ok)
  from Cons.prems have r: "\<forall>i\<in>set is. \<forall>row\<in>set msa. i < length row" by simp
  show ?case
  proof (cases "col_entropy (map (\<lambda>row. row ! i) msa)")
    case None
    then have "all_gaps (map (\<lambda>row. row ! i) msa)" by (simp add: col_entropy_None)
    then show ?thesis using None c by (simp add: Cons.IH [OF r])
  next
    case (Some e)
    then have "\<not> all_gaps (map (\<lambda>row. row ! i) msa)"
      using col_entropy_None [of "map (\<lambda>row. row ! i) msa"] by simp
    then show ?thesis using Some c by (simp add: Cons.IH [OF r])
  qed
qed

text \<open>
  C8. A column with at least one residue, all of whose residues are the same character,
  has entropy 0. The entropy of a column is NaN exactly when the column holds gap
  characters only, and \<open>mean_entropy\<close> leaves such columns out: for an alignment whose
  rows are at least as long as the first, it is the sum of the entropies of the columns
  that hold a residue divided by the number of those columns (NaN when there is none).
\<close>

theorem entropy_identical_and_gap_columns:
  "((\<exists>c\<in>set column. c \<notin> GAP_CHARS) \<and>
    (\<forall>c\<in>set column. \<forall>d\<in>set column. c \<notin> GAP_CHARS \<longrightarrow> d \<notin> GAP_CHARS \<longrightarrow> c = d)
      \<longrightarrow> col_entropy column = Some 0) \<and>
   (col_entropy column = None \<longleftrightarrow> all_gaps column) \<and>
   (msa \<noteq> [] \<and> (\<forall>row\<in>set msa. length (hd msa) \<le> length row) \<longrightarrow>
      mean_entropy msa =
        Inr (if filter (\<lambda>c. \<not> all_gaps c) (msa_columns msa) = [] then None
             else Some ((\<Sum>c\<leftarrow>filter (\<lambda>c. \<not> all_gaps c) (msa_columns msa). the (col_entropy c))
                        / real (length (filter (\<lambda>c. \<not> all_gaps c) (msa_columns msa))))))"
proof (intro conjI impI)
  assume "(\<exists>c\<in>set column. c \<notin> GAP_CHARS) \<and>
    (\<forall>c\<in>set column. \<forall>d\<in>set column. c \<notin> GAP_CHARS \<longrightarrow> d \<notin> GAP_CHARS \<longrightarrow> c = d)"
  then show "col_entropy column = Some 0" using col_entropy_identical by blast
next
  show "col_entropy column = None \<longleftrightarrow> all_gaps column" by (rule col_entropy_None)
next
  assume a: "msa \<noteq> [] \<and> (\<forall>row\<in>set msa. length (hd msa) \<le> length row)"
  then have "\<forall>i\<in>set [0 ..< length (hd msa)]. \<forall>row\<in>set msa. i < length row"
    by fastforce
  from ents_loop_ok [OF this, of "[]"] a
  show "mean_entropy msa =
        Inr (if filter (\<lambda>c. \<not> all_gaps c) (msa_columns msa) = [] then None
             else Some ((\<Sum>c\<leftarrow>filter (\<lambda>c. \<not> all_gaps c) (msa_columns msa). the (col_entropy c))
                        / real (length (filter (\<lambda>c. \<not> all_gaps c) (msa_columns msa)))))"
    by (simp add: mean_entropy_def msa_columns_def)
qed

theorem entropy_identical_and_gap_columns_witness:
  "filter (\<lambda>c. c \<notin> GAP_CHARS) ''A-A.'' = ''AA'' \<and>
   col_entropy ''A-A.'' = Some 0 \<and>
   map length [''A-C'', ''A.D''] = [3, 3] \<and>
   msa_columns [''A-C'', ''A.D''] = [''AA'', ''-.'', ''CD''] \<and>
   mean_entropy [''A-C'', ''A.D''] = Inr (Some (1 / 2))"
proof -
  have h1: "(\<exists>c\<in>set ''A-A.''. c \<notin> GAP_CHARS) \<and>
   (\<forall>c\<in>set ''A-A.''. \<forall>d\<in>set ''A-A.''. c \<notin> GAP_CHARS \<longrightarrow> d \<notin> GAP_CHARS \<longrightarrow> c = d)"
    by (simp add: GAP_CHARS_def)
  have h2: "[''A-C'', ''A.D''] \<noteq> [] \<and>
   (\<forall>row\<in>set [''A-C'', ''A.D'']. length (hd [''A-C'', ''A.D'']) \<le> length row)"
    by simp
  have cols: "msa_columns [''A-C'', ''A.D''] = [''AA'', ''-.'', ''CD'']"
    by (simp add: msa_columns_def upt_rec)
  have kept: "filter (\<lambda>c. \<not> all_gaps c) [''AA'', ''-.'', ''CD''] = [''AA'', ''CD'']"
    by (simp add: all_gaps_def GAP_CHARS_def)
  have e0: "col_entropy ''AA'' = Some 0"
    by (simp add: col_entropy_def GAP_CHARS_def Counter_def Let_def)
  have e1: "col_entropy ''CD'' = Some 1"
    by (simp add: col_entropy_def GAP_CHARS_def Counter_def Let_def log_divide)
  note t = entropy_identical_and_gap_columns [of "''A-A.''" "[''A-C'', ''A.D'']"]
  from t h1 have a: "col_entropy ''A-A.'' = Some 0" by blast
  from t h2 have "mean_entropy [''A-C'', ''A.D''] =
        Inr (if filter (\<lambda>c. \<not> all_gaps c) (msa_columns [''A-C'', ''A.D'']) = [] then None
             else Some ((\<Sum>c\<leftarrow>filter (\<lambda>c. \<not> all_gaps c) (msa_columns [''A-C'', ''A.D'']). the (col_entropy c))
                        / real (length (filter (\<lambda>c. \<not> all_gaps c) (msa_columns [''A-C'', ''A.D''])))))"
    by blast
  then have b: "mean_entropy [''A-C'', ''A.D''] = Inr (Some (1 / 2))"
    unfolding cols kept by (simp add: e0 e1)
  have f: "filter (\<lambda>c. c \<notin> GAP_CHARS) ''A-A.'' = ''AA''"
    by (simp add: GAP_CHARS_def)
  have l: "map length [''A-C'', ''A.D''] = [3, 3]"
    by simp
  from f l a b cols show ?thesis by blast
qed

lemma redundant_iff:
  "redundant s ks thresh \<longleftrightarrow> (\<exists>k\<in>set ks. pairwise_identity_gapmasked s k \<ge> thresh)"
  by (induction ks) auto

lemma greedy_loop_keeps:
  "(\<forall>j<length rest. \<not> redundant (rest ! j) (kept @ take j rest) thresh) \<Longrightarrow>
   greedy_loop rest kept thresh = kept @ rest"
proof (induction rest arbitrary: kept)
  case Nil
  show ?case by simp
next
  case (Cons s rest)
  from Cons.prems have s: "\<not> redundant s kept thresh" by fastforce
  have "\<forall>j<length rest. \<not> redundant (rest ! j) ((kept @ [s]) @ take j rest) thresh"
  proof (intro allI impI)
    fix j assume "j < length rest"
    then have "Suc j < length (s # rest)" by simp
    with Cons.prems have "\<not> redundant ((s # rest) ! Suc j) (kept @ take (Suc j) (s # rest)) thresh"
      by blast
    then show "\<not> redundant (rest ! j) ((kept @ [s]) @ take j rest) thresh" by simp
  qed
  from Cons.IH [OF this] s show ?case by simp
qed

text \<open>The identity of two sequences does not depend on their order.\<close>

lemma identity_loop_swap:
  "identity_loop (map (\<lambda>(x, y). (y, x)) ps) acc = identity_loop ps acc"
proof (induction ps arbitrary: acc)
  case Nil
  show ?case by (cases acc) simp
next
  case (Cons p ps)
  obtain x y where p: "p = (x, y)" by (cases p)
  obtain m c where acc: "acc = (m, c)" by (cases acc)
  show ?case by (auto simp: p acc Cons.IH)
qed

lemma pairwise_identity_gapmasked_commute:
  "pairwise_identity_gapmasked a b = pairwise_identity_gapmasked b a"
proof -
  have "zip b a = map (\<lambda>(x, y). (y, x)) (zip a b)" by (rule zip_commute)
  then show ?thesis by (simp add: pairwise_identity_gapmasked_def identity_loop_swap)
qed

text \<open>
  C9. When every sequence of the list has a gap-masked identity strictly below the
  threshold to each sequence before it (that is, since the identity is symmetric, when
  every pair of the list has), \<open>greedy_nr_count\<close> returns the length of the list: the
  loop keeps every sequence.
\<close>

theorem greedy_nr_count_keeps_all:
  assumes "\<forall>j<length msa. \<forall>i<j. pairwise_identity_gapmasked (msa ! j) (msa ! i) < thresh"
  shows "greedy_nr_count msa thresh = length msa \<and> greedy_loop msa [] thresh = msa"
proof -
  have "\<forall>j<length msa. \<not> redundant (msa ! j) ([] @ take j msa) thresh"
  proof (intro allI impI)
    fix j assume j: "j < length msa"
    show "\<not> redundant (msa ! j) ([] @ take j msa) thresh"
    proof
      assume "redundant (msa ! j) ([] @ take j msa) thresh"
      then obtain k where k: "k \<in> set (take j msa)"
        and ge: "pairwise_identity_gapmasked (msa ! j) k \<ge> thresh"
        by (auto simp: redundant_iff)
      from k obtain i where "i < length (take j msa)" and "take j msa ! i = k"
        by (auto simp: in_set_conv_nth)
      then have "i < j" and "msa ! i = k" using j by simp_all
      with assms j ge show False by fastforce
    qed
  qed
  from greedy_loop_keeps [OF this] show ?thesis
    by (simp add: greedy_nr_count_def)
qed


theorem greedy_nr_count_keeps_all_witness:
  "pairwise_identity_gapmasked ''GCDT'' ''ACDA'' = 1 / 2 \<and>
   pairwise_identity_gapmasked ''.CAC'' ''ACDA'' = 1 / 3 \<and>
   pairwise_identity_gapmasked ''.CAC'' ''GCDT'' = 1 / 3 \<and>
   greedy_nr_count [''ACDA'', ''GCDT'', ''.CAC''] (62 / 100) = 3"
proof -
  have a: "pairwise_identity_gapmasked ''GCDT'' ''ACDA'' = 1 / 2" by code_simp
  have b: "pairwise_identity_gapmasked ''.CAC'' ''ACDA'' = 1 / 3" by code_simp
  have c: "pairwise_identity_gapmasked ''.CAC'' ''GCDT'' = 1 / 3" by code_simp
  have h: "\<forall>j<length [''ACDA'', ''GCDT'', ''.CAC'']. \<forall>i<j.
      pairwise_identity_gapmasked ([''ACDA'', ''GCDT'', ''.CAC''] ! j) ([''ACDA'', ''GCDT'', ''.CAC''] ! i)
        < 62 / 100"
    by (auto simp: numeral_3_eq_3 less_Suc_eq a b c)
  from greedy_nr_count_keeps_all [OF h] have "greedy_nr_count [''ACDA'', ''GCDT'', ''.CAC''] (62 / 100) = 3"
    by simp
  with a b c show ?thesis by blast
qed

section \<open>Coverage and internal gap\<close>

lemma gap_loop_ge: "m \<le> gap_loop m x xs"
proof (induction xs arbitrary: m x)
  case Nil
  show ?case by simp
next
  case (Cons y ys)
  have "m \<le> (if y - x - 1 > m then y - x - 1 else m)" by simp
  also have "\<dots> \<le> gap_loop (if y - x - 1 > m then y - x - 1 else m) y ys" by (rule Cons.IH)
  finally show ?case by (simp add: Let_def)
qed

lemma strict_sorted_le_last:
  "sorted_wrt (<) (xs::int list) \<Longrightarrow> y \<in> set xs \<Longrightarrow> y \<le> last xs"
proof (induction xs)
  case Nil
  then show ?case by simp
next
  case (Cons x xs)
  show ?case
  proof (cases "xs = []")
    case True
    with Cons.prems show ?thesis by simp
  next
    case False
    then have l: "last xs \<in> set xs" by (rule last_in_set)
    from Cons.prems(1) have s: "sorted_wrt (<) xs" and b: "\<forall>z\<in>set xs. x < z" by simp_all
    show ?thesis
    proof (cases "y = x")
      case True
      then show ?thesis using b l False by (simp add: less_imp_le)
    next
      case False
      with Cons.prems(2) have "y \<in> set xs" by simp
      from Cons.IH [OF s this] show ?thesis using \<open>xs \<noteq> []\<close> by simp
    qed
  qed
qed

lemma strict_sorted_last: "sorted_wrt (<) (x # xs) \<Longrightarrow> (x::int) \<le> last (x # xs)"
  by (rule strict_sorted_le_last) simp_all

lemma strict_sorted_Max: "sorted_wrt (<) (x # xs) \<Longrightarrow> Max (set (x # xs)) = last (x # (xs::int list))"
proof (rule Max_eqI)
  assume s: "sorted_wrt (<) (x # xs)"
  show "finite (set (x # xs))" by simp
  show "last (x # xs) \<in> set (x # xs)" by (rule last_in_set) simp
  fix y assume "y \<in> set (x # xs)"
  with s show "y \<le> last (x # xs)"
    by (rule strict_sorted_le_last)
qed

lemma strict_sorted_Min: "sorted_wrt (<) (x # xs) \<Longrightarrow> Min (set (x # xs)) = (x::int)"
  by (rule Min_eqI) (auto simp: less_imp_le)

lemma gap_loop_bound:
  assumes "sorted_wrt (<) (x # xs)" and "0 < n"
    and "\<forall>i. a \<le> i \<and> i < a + n \<longrightarrow> i \<notin> set (x # xs) \<and> x < i \<and> i < last (x # xs)"
  shows "n \<le> gap_loop m x xs"
  using assms
proof (induction xs arbitrary: x m)
  case Nil
  from Nil.prems(2,3) have "x < a \<and> a < x" by (simp add: Nil.prems(2))
  then show ?case by simp
next
  case (Cons y ys)
  from Cons.prems(1) have s: "sorted_wrt (<) (y # ys)" and xy: "x < y" by simp_all
  let ?m = "if y - x - 1 > m then y - x - 1 else m"
  have g: "gap_loop m x (y # ys) = gap_loop ?m y ys" by (simp add: Let_def)
  from Cons.prems(2,3) have a: "a \<notin> set (x # y # ys)" "x < a" by simp_all
  show ?case
  proof (cases "a < y")
    case True
    have "a + n \<le> y"
    proof (rule ccontr)
      assume "\<not> a + n \<le> y"
      then have "a \<le> y \<and> y < a + n" using True by simp
      with Cons.prems(3) have "y \<notin> set (x # y # ys)" by blast
      then show False by simp
    qed
    then have "n \<le> y - x - 1" using a(2) by simp
    also have "\<dots> \<le> ?m" by simp
    also have "\<dots> \<le> gap_loop ?m y ys" by (rule gap_loop_ge)
    finally show ?thesis by (simp only: g)
  next
    case False
    with a(1) have ya: "y < a" by auto
    have "\<forall>i. a \<le> i \<and> i < a + n \<longrightarrow> i \<notin> set (y # ys) \<and> y < i \<and> i < last (y # ys)"
      using Cons.prems(3) ya by auto
    from Cons.IH [OF s Cons.prems(2) this] show ?thesis by (simp only: g)
  qed
qed

lemma gap_loop_attained:
  assumes "sorted_wrt (<) (x # xs)"
  shows "gap_loop m x xs = m \<or>
         (\<exists>a. \<forall>i. a \<le> i \<and> i < a + gap_loop m x xs \<longrightarrow>
                 i \<notin> set (x # xs) \<and> x < i \<and> i < last (x # xs))"
  using assms
proof (induction xs arbitrary: x m)
  case Nil
  show ?case by simp
next
  case (Cons y ys)
  from Cons.prems have s: "sorted_wrt (<) (y # ys)" and xy: "x < y"
    and above: "\<forall>z\<in>set ys. y < z" by simp_all
  let ?m = "if y - x - 1 > m then y - x - 1 else m"
  have g: "gap_loop m x (y # ys) = gap_loop ?m y ys" by (simp add: Let_def)
  from Cons.IH [OF s, of ?m] consider
    (same) "gap_loop ?m y ys = ?m"
    | (run) a where "\<forall>i. a \<le> i \<and> i < a + gap_loop ?m y ys \<longrightarrow>
                 i \<notin> set (y # ys) \<and> y < i \<and> i < last (y # ys)"
    by blast
  then show ?case
  proof cases
    case same
    show ?thesis
    proof (cases "y - x - 1 > m")
      case True
      then have v: "gap_loop m x (y # ys) = y - x - 1" using same g by simp
      have "\<forall>i. x + 1 \<le> i \<and> i < x + 1 + (y - x - 1) \<longrightarrow>
                 i \<notin> set (x # y # ys) \<and> x < i \<and> i < last (x # y # ys)"
        using above strict_sorted_last [OF s] by auto
      then show ?thesis unfolding v by blast
    next
      case False
      then show ?thesis using same g by simp
    qed
  next
    case run
    then have "\<forall>i. a \<le> i \<and> i < a + gap_loop m x (y # ys) \<longrightarrow>
                 i \<notin> set (x # y # ys) \<and> x < i \<and> i < last (x # y # ys)"
      using xy by (auto simp only: g set_simps last.simps split: if_splits)
    then show ?thesis by blast
  qed
qed

lemma spec_gap_of_sorted:
  assumes "sorted_wrt (<) (x # xs)"
  shows "spec_max_internal_gap (set (x # xs)) = gap_loop 0 x xs"
proof -
  let ?obs = "set (x # xs)"
  let ?g = "gap_loop 0 x xs"
  have mn: "Min ?obs = x" by (rule strict_sorted_Min [OF assms])
  have mx: "Max ?obs = last (x # xs)" by (rule strict_sorted_Max [OF assms])
  have g0: "0 \<le> ?g" by (rule gap_loop_ge)
  have le: "n \<le> ?g" if "\<exists>a. missing_run ?obs a n" for n
  proof (cases "0 < n")
    case True
    from that obtain a where "missing_run ?obs a n" ..
    then have "\<forall>i. a \<le> i \<and> i < a + n \<longrightarrow> i \<notin> set (x # xs) \<and> x < i \<and> i < last (x # xs)"
      unfolding missing_run_def mn mx by blast
    from gap_loop_bound [OF assms True this] show ?thesis .
  next
    case False
    then show ?thesis using g0 by simp
  qed
  have mem: "\<exists>a. missing_run ?obs a ?g"
  proof -
    from gap_loop_attained [OF assms, of 0] consider
      (zero) "?g = 0"
      | (run) a where "\<forall>i. a \<le> i \<and> i < a + ?g \<longrightarrow>
                 i \<notin> set (x # xs) \<and> x < i \<and> i < last (x # xs)"
      by blast
    then show ?thesis
    proof cases
      case zero
      then show ?thesis by (simp add: missing_run_def)
    next
      case run
      then have "missing_run ?obs a ?g"
        unfolding missing_run_def mn mx using g0 by blast
      then show ?thesis ..
    qed
  qed
  have fin: "finite {n. \<exists>a. missing_run ?obs a n}"
  proof (rule finite_subset)
    show "{n. \<exists>a. missing_run ?obs a n} \<subseteq> {0 .. ?g}"
    proof
      fix n assume n: "n \<in> {n. \<exists>a. missing_run ?obs a n}"
      then have "0 \<le> n" by (auto simp: missing_run_def)
      moreover from n have "n \<le> ?g" using le by blast
      ultimately show "n \<in> {0 .. ?g}" by simp
    qed
    show "finite {0 .. ?g}" by simp
  qed
  show ?thesis
    unfolding spec_max_internal_gap_def
    by (rule Max_eqI [OF fin]) (use le mem in auto)
qed


lemma compute_coverage_and_gap_value:
  assumes "seq_ids \<noteq> []"
    and "observed_seq_ids (residues chain) amap {||} = observed" and "observed \<noteq> {||}"
  shows "compute_coverage_and_gap chain seq_ids amap =
           (of_nat (card (fset observed)) / of_nat (length seq_ids),
            spec_max_internal_gap (fset observed))"
proof -
  let ?xs = "sorted_list_of_fset observed"
  have st: "sorted_wrt (<) ?xs"
    by (simp add: sorted_list_of_fset.rep_eq)
  have se: "set ?xs = fset observed" by simp
  from assms(3) have "?xs \<noteq> []"
    by (metis se bot_fset.rep_eq fset_inject set_empty)
  then obtain x rest where xs: "?xs = x # rest" by (cases ?xs) auto
  from spec_gap_of_sorted [of x rest] st se
  have g: "spec_max_internal_gap (fset observed) = gap_loop 0 x rest"
    by (simp add: xs)
  have "compute_coverage_and_gap chain seq_ids amap =
          (of_nat (fcard observed) / of_nat (length seq_ids), gap_loop 0 x rest)"
  proof (cases rest)
    case Nil
    then show ?thesis
      using assms by (simp add: compute_coverage_and_gap_def Let_def xs)
  next
    case (Cons y ys)
    then show ?thesis
      using assms by (simp add: compute_coverage_and_gap_def Let_def xs)
  qed
  then show ?thesis by (simp add: g fcard.rep_eq)
qed

text \<open>
  C6. For a non-empty list of distinct declared polymer positions and a non-empty set of
  observed positions (the positions that the residues of the chain map to),
  \<open>compute_coverage_and_gap\<close> returns the number of observed positions divided by the
  number of declared positions, and the largest length of a run of consecutive integers
  that are missing from the observed set and lie strictly between its minimum and its
  maximum. Declared positions 1 to 10 with observed positions 1, 2, 3, 7, 8, 9, 10 give
  coverage 7/10 and maximum internal gap 3.
\<close>

theorem compute_coverage_and_gap_spec:
  "(seq_ids \<noteq> [] \<and> distinct seq_ids \<and>
    observed_seq_ids (residues chain) amap {||} = observed \<and> observed \<noteq> {||} \<longrightarrow>
      compute_coverage_and_gap chain seq_ids amap =
        (of_nat (card (fset observed)) / of_nat (card (set seq_ids)),
         spec_max_internal_gap (fset observed))) \<and>
   observed_seq_ids (map (\<lambda>i. ('' '', i, '' '')) [1, 2, 3, 7, 8, 9, 10])
     (\<lambda>(n, ic). if ic = [] \<and> 1 \<le> n \<and> n \<le> 10 then Some {|n|} else None) {||} =
     {|1, 2, 3, 7, 8, 9, 10|} \<and>
   compute_coverage_and_gap
     \<lparr>chain_id = ''A'', residues = map (\<lambda>i. ('' '', i, '' '')) [1, 2, 3, 7, 8, 9, 10]\<rparr>
     [1, 2, 3, 4, 5, 6, 7, 8, 9, 10]
     (\<lambda>(n, ic). if ic = [] \<and> 1 \<le> n \<and> n \<le> 10 then Some {|n|} else None) = (7 / 10, 3)"
proof (intro conjI impI)
  assume a: "seq_ids \<noteq> [] \<and> distinct seq_ids \<and>
    observed_seq_ids (residues chain) amap {||} = observed \<and> observed \<noteq> {||}"
  then have "card (set seq_ids) = length seq_ids" by (simp add: distinct_card)
  with compute_coverage_and_gap_value [of seq_ids chain amap observed] a
  show "compute_coverage_and_gap chain seq_ids amap =
        (of_nat (card (fset observed)) / of_nat (card (set seq_ids)),
         spec_max_internal_gap (fset observed))"
    by simp
next
  show "observed_seq_ids (map (\<lambda>i. ('' '', i, '' '')) [1, 2, 3, 7, 8, 9, 10])
     (\<lambda>(n, ic). if ic = [] \<and> 1 \<le> n \<and> n \<le> 10 then Some {|n|} else None) {||} =
     {|1, 2, 3, 7, 8, 9, 10|}"
    by code_simp
next
  show "compute_coverage_and_gap
     \<lparr>chain_id = ''A'', residues = map (\<lambda>i. ('' '', i, '' '')) [1, 2, 3, 7, 8, 9, 10]\<rparr>
     [1, 2, 3, 4, 5, 6, 7, 8, 9, 10]
     (\<lambda>(n, ic). if ic = [] \<and> 1 \<le> n \<and> n \<le> 10 then Some {|n|} else None) = (7 / 10, 3)"
    by code_simp
qed

theorem compute_coverage_and_gap_spec_witness:
  "[2, 3, 4, 5, 6, 7, 8, 9 :: int] \<noteq> [] \<and> distinct [2, 3, 4, 5, 6, 7, 8, 9 :: int] \<and>
   observed_seq_ids (residues \<lparr>chain_id = ''A'', residues = [('' '', 12, '' ''), (''W'', 300, '' ''), ('' '', 15, ''A''), ('' '', 19, '' '')]\<rparr>)
     [(12, []) \<mapsto> {|2|}, (15, ''A'') \<mapsto> {|5|}, (19, []) \<mapsto> {|9|}, (16, []) \<mapsto> {|6|}] {||} = {|2, 5, 9|} \<and>
   {|2, 5, 9 :: int|} \<noteq> {||} \<and>
   compute_coverage_and_gap
     \<lparr>chain_id = ''A'', residues = [('' '', 12, '' ''), (''W'', 300, '' ''), ('' '', 15, ''A''), ('' '', 19, '' '')]\<rparr>
     [2, 3, 4, 5, 6, 7, 8, 9]
     [(12, []) \<mapsto> {|2|}, (15, ''A'') \<mapsto> {|5|}, (19, []) \<mapsto> {|9|}, (16, []) \<mapsto> {|6|}] = (3 / 8, 3) \<and>
   spec_max_internal_gap {2, 5, 9} = 3"
proof -
  let ?chain = "\<lparr>chain_id = ''A'', residues = [('' '', 12, '' ''), (''W'', 300, '' ''), ('' '', 15, ''A''), ('' '', 19, '' '')]\<rparr>"
  let ?amap = "[(12, []) \<mapsto> {|2|}, (15, ''A'') \<mapsto> {|5|}, (19, []) \<mapsto> {|9|}, (16, []) \<mapsto> {|6::int|}] :: auth_map"
  have h1: "[2, 3, 4, 5, 6, 7, 8, 9 :: int] \<noteq> [] \<and> distinct [2, 3, 4, 5, 6, 7, 8, 9 :: int]" by simp
  have h2: "observed_seq_ids (residues ?chain) ?amap {||} = {|2, 5, 9|}"
    by code_simp
  have h3: "{|2, 5, 9 :: int|} \<noteq> {||}" by simp
  have v: "compute_coverage_and_gap ?chain [2, 3, 4, 5, 6, 7, 8, 9] ?amap = (3 / 8, 3)"
    by code_simp
  from compute_coverage_and_gap_spec [of "[2, 3, 4, 5, 6, 7, 8, 9]" ?chain ?amap "{|2, 5, 9|}"] h1 h2 h3
  have "compute_coverage_and_gap ?chain [2, 3, 4, 5, 6, 7, 8, 9] ?amap =
        (of_nat (card (fset {|2, 5, 9 :: int|})) / of_nat (card (set [2, 3, 4, 5, 6, 7, 8, 9 :: int])),
         spec_max_internal_gap (fset {|2, 5, 9|}))"
    by blast
  with v have "spec_max_internal_gap {2, 5, 9} = 3" by simp
  with h1 h2 h3 v show ?thesis by blast
qed

section \<open>The thresholds of the structure cleaner\<close>

text \<open>
  C7. For an entry that parses and whose first model has a chain, \<open>process_cif_file\<close>
  computes the coverage and the maximum internal gap of the first chain. When the
  coverage is strictly below 0.8 or the gap strictly above 15, it logs REJECT and saves
  nothing. Otherwise it logs ACCEPT and saves the structure in which the other chains
  of the first model are detached and the chosen chain keeps its polymer residues only:
  those that the map from author numbering knows, or, on the fallback path, those
  without a HET flag. In particular an entry with coverage exactly 0.8 and gap exactly
  15 is accepted and saved.
\<close>

theorem process_cif_file_thresholds:
  assumes "parse_result = Inr ((chain # cs) # others)"
    and "coverage_and_gap py_int dict_result chain = (meth, amap_opt, coverage, max_gap)"
  shows
    "(coverage < 8 / 10 \<or> 15 < max_gap \<longrightarrow>
        (\<exists>r. logged (process_cif_file py_int parse_result dict_result) = REJECT r) \<and>
        saved (process_cif_file py_int parse_result dict_result) = None) \<and>
     (\<not> (coverage < 8 / 10 \<or> 15 < max_gap) \<longrightarrow>
        process_cif_file py_int parse_result dict_result =
          \<lparr>logged = ACCEPT (chain_id chain) coverage max_gap meth,
           saved = Some ((chain\<lparr>residues :=
                            filter (case amap_opt of
                                      Some amap \<Rightarrow> (\<lambda>r. amap (residue_key r) \<noteq> None)
                                    | None \<Rightarrow> (\<lambda>r. strip (fst r) = []))
                              (residues chain)\<rparr>
                          # filter (\<lambda>c. chain_id c = chain_id chain) cs)
                         # others)\<rparr>) \<and>
     (coverage = 8 / 10 \<and> max_gap = 15 \<longrightarrow>
        logged (process_cif_file py_int parse_result dict_result) =
          ACCEPT (chain_id chain) (8 / 10) 15 meth \<and>
        saved (process_cif_file py_int parse_result dict_result) \<noteq> None)"
proof -
  have rej: "(\<exists>r. logged (process_cif_file py_int parse_result dict_result) = REJECT r) \<and>
        saved (process_cif_file py_int parse_result dict_result) = None"
    if "coverage < 8 / 10 \<or> 15 < max_gap"
    using that assms
    by (auto simp: process_cif_file_def COVERAGE_CUTOFF_def MAX_INTERNAL_GAP_def)
  have acc: "process_cif_file py_int parse_result dict_result =
          \<lparr>logged = ACCEPT (chain_id chain) coverage max_gap meth,
           saved = Some ((chain\<lparr>residues :=
                            filter (case amap_opt of
                                      Some amap \<Rightarrow> (\<lambda>r. amap (residue_key r) \<noteq> None)
                                    | None \<Rightarrow> (\<lambda>r. strip (fst r) = []))
                              (residues chain)\<rparr>
                          # filter (\<lambda>c. chain_id c = chain_id chain) cs)
                         # others)\<rparr>"
    if "\<not> (coverage < 8 / 10 \<or> 15 < max_gap)"
    using that assms
    by (cases amap_opt)
       (simp_all add: process_cif_file_def COVERAGE_CUTOFF_def MAX_INTERNAL_GAP_def clean_model_def
          clean_chain_using_polymer_mapping_def remove_het_residues_def)
  have bnd: "logged (process_cif_file py_int parse_result dict_result) =
          ACCEPT (chain_id chain) (8 / 10) 15 meth \<and>
        saved (process_cif_file py_int parse_result dict_result) \<noteq> None"
    if "coverage = 8 / 10 \<and> max_gap = 15"
  proof -
    from that have "\<not> (coverage < 8 / 10 \<or> 15 < max_gap)" by simp
    from acc [OF this] that show ?thesis by simp
  qed
  from rej acc bnd show ?thesis by blast
qed

theorem process_cif_file_thresholds_witness:
  "fst (snd (snd (coverage_and_gap dec_int
      (Some [''_pdbx_poly_seq_scheme.seq_id'' \<mapsto> Lst [''1'', ''2'', ''18'', ''19'', ''20''],
             ''_pdbx_poly_seq_scheme.pdb_strand_id'' \<mapsto> Lst [''A'', ''A'', ''A'', ''A'', ''A''],
             ''_pdbx_poly_seq_scheme.auth_seq_num'' \<mapsto> Lst [''101'', ''102'', ''118'', ''119'', ''?''],
             ''_pdbx_poly_seq_scheme.pdb_ins_code'' \<mapsto> Lst [''.'', ''.'', ''.'', ''.'', ''.'']])
      \<lparr>chain_id = ''A'',
       residues = [('' '', 101, '' ''), ('' '', 102, '' ''), (''W'', 500, '' ''),
                   ('' '', 118, '' ''), ('' '', 119, '' '')]\<rparr>))) = 8 / 10 \<and>
   snd (snd (snd (coverage_and_gap dec_int
      (Some [''_pdbx_poly_seq_scheme.seq_id'' \<mapsto> Lst [''1'', ''2'', ''18'', ''19'', ''20''],
             ''_pdbx_poly_seq_scheme.pdb_strand_id'' \<mapsto> Lst [''A'', ''A'', ''A'', ''A'', ''A''],
             ''_pdbx_poly_seq_scheme.auth_seq_num'' \<mapsto> Lst [''101'', ''102'', ''118'', ''119'', ''?''],
             ''_pdbx_poly_seq_scheme.pdb_ins_code'' \<mapsto> Lst [''.'', ''.'', ''.'', ''.'', ''.'']])
      \<lparr>chain_id = ''A'',
       residues = [('' '', 101, '' ''), ('' '', 102, '' ''), (''W'', 500, '' ''),
                   ('' '', 118, '' ''), ('' '', 119, '' '')]\<rparr>))) = 15 \<and>
   process_cif_file dec_int
     (Inr [[\<lparr>chain_id = ''A'',
             residues = [('' '', 101, '' ''), ('' '', 102, '' ''), (''W'', 500, '' ''),
                         ('' '', 118, '' ''), ('' '', 119, '' '')]\<rparr>,
            \<lparr>chain_id = ''B'', residues = [(''H_HEM'', 1, '' '')]\<rparr>]])
     (Some [''_pdbx_poly_seq_scheme.seq_id'' \<mapsto> Lst [''1'', ''2'', ''18'', ''19'', ''20''],
            ''_pdbx_poly_seq_scheme.pdb_strand_id'' \<mapsto> Lst [''A'', ''A'', ''A'', ''A'', ''A''],
            ''_pdbx_poly_seq_scheme.auth_seq_num'' \<mapsto> Lst [''101'', ''102'', ''118'', ''119'', ''?''],
            ''_pdbx_poly_seq_scheme.pdb_ins_code'' \<mapsto> Lst [''.'', ''.'', ''.'', ''.'', ''.'']]) =
     \<lparr>logged = ACCEPT ''A'' (8 / 10) 15 Method_main,
      saved = Some [[\<lparr>chain_id = ''A'',
                      residues = [('' '', 101, '' ''), ('' '', 102, '' ''),
                                  ('' '', 118, '' ''), ('' '', 119, '' '')]\<rparr>]]\<rparr> \<and>
   fst (snd (snd (coverage_and_gap dec_int None
      \<lparr>chain_id = ''A'',
       residues = [('' '', 101, '' ''), ('' '', 102, '' ''), (''W'', 500, '' ''),
                   ('' '', 118, '' ''), ('' '', 119, '' '')]\<rparr>))) < 8 / 10 \<and>
   (\<exists>r. logged (process_cif_file dec_int
     (Inr [[\<lparr>chain_id = ''A'',
             residues = [('' '', 101, '' ''), ('' '', 102, '' ''), (''W'', 500, '' ''),
                         ('' '', 118, '' ''), ('' '', 119, '' '')]\<rparr>,
            \<lparr>chain_id = ''B'', residues = [(''H_HEM'', 1, '' '')]\<rparr>]]) None) = REJECT r) \<and>
   saved (process_cif_file dec_int
     (Inr [[\<lparr>chain_id = ''A'',
             residues = [('' '', 101, '' ''), ('' '', 102, '' ''), (''W'', 500, '' ''),
                         ('' '', 118, '' ''), ('' '', 119, '' '')]\<rparr>,
            \<lparr>chain_id = ''B'', residues = [(''H_HEM'', 1, '' '')]\<rparr>]]) None) = None"
proof -
  let ?cif = "[''_pdbx_poly_seq_scheme.seq_id'' \<mapsto> Lst [''1'', ''2'', ''18'', ''19'', ''20''],
             ''_pdbx_poly_seq_scheme.pdb_strand_id'' \<mapsto> Lst [''A'', ''A'', ''A'', ''A'', ''A''],
             ''_pdbx_poly_seq_scheme.auth_seq_num'' \<mapsto> Lst [''101'', ''102'', ''118'', ''119'', ''?''],
             ''_pdbx_poly_seq_scheme.pdb_ins_code'' \<mapsto> Lst [''.'', ''.'', ''.'', ''.'', ''.'']]"
  let ?A = "\<lparr>chain_id = ''A'',
       residues = [('' '', 101, '' ''), ('' '', 102, '' ''), (''W'', 500, '' ''),
                   ('' '', 118, '' ''), ('' '', 119, '' '')]\<rparr>"
  let ?B = "\<lparr>chain_id = ''B'', residues = [(''H_HEM'', 1, '' '')]\<rparr>"
  have c: "fst (snd (snd (coverage_and_gap dec_int (Some ?cif) ?A))) = 8 / 10"
    by code_simp
  have g: "snd (snd (snd (coverage_and_gap dec_int (Some ?cif) ?A))) = 15"
    by code_simp
  have v: "process_cif_file dec_int (Inr [[?A, ?B]]) (Some ?cif) =
     \<lparr>logged = ACCEPT ''A'' (8 / 10) 15 Method_main,
      saved = Some [[\<lparr>chain_id = ''A'',
                      residues = [('' '', 101, '' ''), ('' '', 102, '' ''),
                                  ('' '', 118, '' ''), ('' '', 119, '' '')]\<rparr>]]\<rparr>"
    by code_simp
  have f: "fst (snd (snd (coverage_and_gap dec_int None ?A))) < 8 / 10"
    by code_simp
  obtain meth amap_opt coverage max_gap where
    eq: "coverage_and_gap dec_int None ?A = (meth, amap_opt, coverage, max_gap)"
    by (cases "coverage_and_gap dec_int None ?A") auto
  from f eq have lt: "coverage < 8 / 10" by simp
  from process_cif_file_thresholds [OF refl eq, of "[?B]" "[]"] lt
  have r: "(\<exists>r. logged (process_cif_file dec_int (Inr [[?A, ?B]]) None) = REJECT r) \<and>
        saved (process_cif_file dec_int (Inr [[?A, ?B]]) None) = None"
    by blast
  obtain meth' amap_opt' coverage' max_gap' where
    eq': "coverage_and_gap dec_int (Some ?cif) ?A = (meth', amap_opt', coverage', max_gap')"
    by (cases "coverage_and_gap dec_int (Some ?cif) ?A") auto
  from c g eq' have bd: "coverage' = 8 / 10 \<and> max_gap' = 15" by simp
  from process_cif_file_thresholds [OF refl eq', of "[?B]" "[]"] bd
  have a: "logged (process_cif_file dec_int (Inr [[?A, ?B]]) (Some ?cif)) =
             ACCEPT (chain_id ?A) (8 / 10) 15 meth' \<and>
           saved (process_cif_file dec_int (Inr [[?A, ?B]]) (Some ?cif)) \<noteq> None"
    by blast
  from c g v f r a show ?thesis by blast
qed

end
